theory Spec2Isabelle
  imports Main "HOL-Library.Sublist"
begin

section \<open>Python strings\<close>

text \<open>
  A Python \<open>str\<close> is a sequence of code points. The model is \<open>string\<close>, each
  \<open>char\<close> read as the code point U+0000 to U+00FF of the same number (Latin-1); code
  points above U+00FF are outside the model. The character classes below are the ones
  CPython uses for \<open>str\<close> patterns and methods, restricted to that range:
  \<open>\s\<close> and \<open>str.strip\<close> use \<open>Py_UNICODE_ISSPACE\<close>, \<open>\d\<close> uses
  \<open>Py_UNICODE_ISDECIMAL\<close>, \<open>\w\<close> is \<open>Py_UNICODE_ISALNUM\<close> or the underscore.
\<close>

abbreviation NL :: char where
  "NL \<equiv> CHR 0x0A"

definition is_space :: "char \<Rightarrow> bool" where
  "is_space c = (let n = (of_char c :: nat) in
      (9 \<le> n \<and> n \<le> 13) \<or> (28 \<le> n \<and> n \<le> 32) \<or> n = 133 \<or> n = 160)"

definition is_digit :: "char \<Rightarrow> bool" where
  "is_digit c = (let n = (of_char c :: nat) in 48 \<le> n \<and> n \<le> 57)"

definition is_word :: "char \<Rightarrow> bool" where
  "is_word c = (let n = (of_char c :: nat) in
      (48 \<le> n \<and> n \<le> 57) \<or> (65 \<le> n \<and> n \<le> 90) \<or> n = 95 \<or> (97 \<le> n \<and> n \<le> 122)
      \<or> n = 170 \<or> n = 178 \<or> n = 179 \<or> n = 181 \<or> n = 185 \<or> n = 186
      \<or> (188 \<le> n \<and> n \<le> 190) \<or> (192 \<le> n \<and> n \<le> 214)
      \<or> (216 \<le> n \<and> n \<le> 246) \<or> 248 \<le> n)"

text \<open>\<open>str.lower\<close>: A to Z, and the upper-case letters of U+00C0 to U+00DE, move up by 32.\<close>

definition lower_char :: "char \<Rightarrow> char" where
  "lower_char c = (let n = (of_char c :: nat) in
      if (65 \<le> n \<and> n \<le> 90) \<or> (192 \<le> n \<and> n \<le> 214) \<or> (216 \<le> n \<and> n \<le> 222)
      then char_of (n + 32) else c)"

definition lower :: "string \<Rightarrow> string" where
  "lower s = map lower_char s"

text \<open>\<open>str.strip()\<close>: white space is removed at both ends.\<close>

definition strip :: "string \<Rightarrow> string" where
  "strip s = rev (dropWhile is_space (rev (dropWhile is_space s)))"

text \<open>
  \<open>str.split(sep)\<close> for a separator that is not empty (Python raises ValueError on an
  empty one; the program only splits on \<open>"- "\<close>): the occurrences of \<open>sep\<close> are found
  from the left, without overlap, and the pieces between them are returned. \<open>cur\<close> is
  the piece being read.
\<close>

fun split_from :: "string \<Rightarrow> string \<Rightarrow> string \<Rightarrow> string list" where
  "split_from sep cur [] = [cur]"
| "split_from sep cur (x # xs) =
     (if sep \<noteq> [] \<and> take (length sep) (x # xs) = sep
      then cur # split_from sep [] (drop (length sep - 1) xs)
      else split_from sep (cur @ [x]) xs)"

definition split :: "string \<Rightarrow> string \<Rightarrow> string list" where
  "split s sep = split_from sep [] s"

text \<open>\<open>sep.join(xs)\<close>.\<close>

fun join :: "string \<Rightarrow> string list \<Rightarrow> string" where
  "join sep [] = []"
| "join sep [x] = x"
| "join sep (x # y # ys) = x @ sep @ join sep (y # ys)"

text \<open>\<open>s.endswith(suf)\<close>.\<close>

definition endswith :: "string \<Rightarrow> string \<Rightarrow> bool" where
  "endswith s suf = (length suf \<le> length s \<and> drop (length s - length suf) s = suf)"

section \<open>Errors\<close>

text \<open>
  The exceptions the program can raise, as values. \<open>KeyError\<close> carries the key,
  \<open>EnvError\<close> the name of the variable that is not set, \<open>EnvironmentError\<close> its
  message.
\<close>

datatype py_error =
    KeyError string
  | IndexError
  | AttributeError
  | TypeError
  | EnvError string
  | EnvironmentError string

text \<open>\<open>xs[i]\<close> for an index that is not negative.\<close>

definition py_index :: "'a list \<Rightarrow> nat \<Rightarrow> py_error + 'a" where
  "py_index xs i = (if i < length xs then Inr (xs ! i) else Inl IndexError)"

section \<open>Regular expressions, as the module \<open>re\<close> matches them\<close>

text \<open>
  The part of Python's pattern language the program uses. A character class is
  \<open>\d\<close>, \<open>\w\<close>, \<open>\s\<close>, or the dot, which matches every character but the newline,
  and every character under the flag \<open>re.DOTALL\<close>.
\<close>

datatype cclass = Digit | Wordc | Space | Dot | DotAll

fun cmatch :: "cclass \<Rightarrow> char \<Rightarrow> bool" where
  "cmatch Digit x = is_digit x"
| "cmatch Wordc x = is_word x"
| "cmatch Space x = is_space x"
| "cmatch Dot x = (x \<noteq> NL)"
| "cmatch DotAll x = True"

text \<open>
  \<open>Str l\<close> is literal text; \<open>Rep greedy c lo hi\<close> is a quantifier on one character
  class, between \<open>lo\<close> and \<open>hi\<close> times (\<open>None\<close>: no upper bound), greedy or lazy;
  \<open>Group\<close> is the capturing group (every pattern of the program has at most one, group
  1); \<open>Bol_multiline\<close> and \<open>Eol_multiline\<close> are \<open>^\<close> and \<open>$\<close> under
  \<open>re.MULTILINE\<close>, \<open>Eol\<close> is \<open>$\<close> without it.
\<close>

datatype regex =
    Str string
  | Rep bool cclass nat "nat option"
  | Seq regex regex
  | Alt regex regex
  | Group regex
  | Bol_multiline
  | Eol
  | Eol_multiline

text \<open>
  The matcher is the backtracking one of \<open>re\<close>, with a continuation for the rest of
  the pattern: the first alternative that lets the rest succeed is taken. Its state is
  the character before the current position (\<open>None\<close> at the start of the text), the
  text from the current position on, and the text of group 1, if it has matched.
\<close>

record mstate =
  m_prev :: "char option"
  m_rest :: string
  m_grp :: "string option"

text \<open>A greedy quantifier takes one more character first and gives it back on failure.\<close>

fun rep_greedy :: "cclass \<Rightarrow> nat \<Rightarrow> nat option \<Rightarrow> char option \<Rightarrow> string \<Rightarrow>
    (char option \<Rightarrow> string \<Rightarrow> 'r option) \<Rightarrow> 'r option" where
  "rep_greedy c lo hi p [] k = (if lo = 0 then k p [] else None)"
| "rep_greedy c lo hi p (x # xs) k =
     (if cmatch c x \<and> hi \<noteq> Some 0 then
        (case rep_greedy c (lo - 1) (map_option (\<lambda>h. h - 1) hi) (Some x) xs k of
           Some r \<Rightarrow> Some r
         | None \<Rightarrow> if lo = 0 then k p (x # xs) else None)
      else if lo = 0 then k p (x # xs) else None)"

text \<open>A lazy quantifier tries the rest of the pattern first.\<close>

fun rep_lazy :: "cclass \<Rightarrow> nat \<Rightarrow> nat option \<Rightarrow> char option \<Rightarrow> string \<Rightarrow>
    (char option \<Rightarrow> string \<Rightarrow> 'r option) \<Rightarrow> 'r option" where
  "rep_lazy c lo hi p [] k = (if lo = 0 then k p [] else None)"
| "rep_lazy c lo hi p (x # xs) k =
     (case (if lo = 0 then k p (x # xs) else None) of
        Some r \<Rightarrow> Some r
      | None \<Rightarrow>
          if cmatch c x \<and> hi \<noteq> Some 0
          then rep_lazy c (lo - 1) (map_option (\<lambda>h. h - 1) hi) (Some x) xs k
          else None)"

fun rmatch :: "regex \<Rightarrow> mstate \<Rightarrow> (mstate \<Rightarrow> mstate option) \<Rightarrow> mstate option" where
  "rmatch (Str l) st k =
     (if take (length l) (m_rest st) = l
      then k (st\<lparr>m_prev := (if l = [] then m_prev st else Some (last l)),
                 m_rest := drop (length l) (m_rest st)\<rparr>)
      else None)"
| "rmatch (Rep greedy c lo hi) st k =
     (if greedy
      then rep_greedy c lo hi (m_prev st) (m_rest st) (\<lambda>p s. k (st\<lparr>m_prev := p, m_rest := s\<rparr>))
      else rep_lazy c lo hi (m_prev st) (m_rest st) (\<lambda>p s. k (st\<lparr>m_prev := p, m_rest := s\<rparr>)))"
| "rmatch (Seq a b) st k = rmatch a st (\<lambda>st'. rmatch b st' k)"
| "rmatch (Alt a b) st k =
     (case rmatch a st k of Some r \<Rightarrow> Some r | None \<Rightarrow> rmatch b st k)"
| "rmatch (Group r) st k =
     rmatch r st (\<lambda>st'. k (st'\<lparr>m_grp :=
        Some (take (length (m_rest st) - length (m_rest st')) (m_rest st))\<rparr>))"
| "rmatch Bol_multiline st k =
     (if m_prev st = None \<or> m_prev st = Some NL then k st else None)"
| "rmatch Eol st k =
     (if m_rest st = [] \<or> m_rest st = [NL] then k st else None)"
| "rmatch Eol_multiline st k =
     (case m_rest st of [] \<Rightarrow> k st | x # _ \<Rightarrow> if x = NL then k st else None)"

text \<open>The pattern that is the sequence of the given ones.\<close>

fun seqs :: "regex list \<Rightarrow> regex" where
  "seqs [] = Str []"
| "seqs [r] = r"
| "seqs (r # rs) = Seq r (seqs rs)"

text \<open>
  A match at the current position: the state after it, or \<open>None\<close>.
\<close>

definition match_here :: "regex \<Rightarrow> char option \<Rightarrow> string \<Rightarrow> mstate option" where
  "match_here r p s = rmatch r \<lparr>m_prev = p, m_rest = s, m_grp = None\<rparr> Some"

text \<open>
  \<open>re.search\<close> tries every start position from the left, the end of the text
  included. The result is the text from the start of the match on, and the state after
  the match.
\<close>

fun re_search_from :: "regex \<Rightarrow> char option \<Rightarrow> string \<Rightarrow> (string \<times> mstate) option" where
  "re_search_from r p [] =
     (case match_here r p [] of Some st \<Rightarrow> Some ([], st) | None \<Rightarrow> None)"
| "re_search_from r p (x # xs) =
     (case match_here r p (x # xs) of
        Some st \<Rightarrow> Some (x # xs, st)
      | None \<Rightarrow> re_search_from r (Some x) xs)"

definition re_search :: "regex \<Rightarrow> string \<Rightarrow> (string \<times> mstate) option" where
  "re_search r s = re_search_from r None s"

text \<open>\<open>match.group(0)\<close>, the matched text, and \<open>match.group(1)\<close>.\<close>

definition group0 :: "string \<times> mstate \<Rightarrow> string" where
  "group0 m = take (length (fst m) - length (m_rest (snd m))) (fst m)"

definition group1 :: "string \<times> mstate \<Rightarrow> string option" where
  "group1 m = m_grp (snd m)"

text \<open>
  \<open>re.findall\<close> searches again from the end of each match. Each pattern the program
  gives it needs at least one character; after an empty match the model resumes one
  character further (\<open>re\<close> resumes at the same position and refuses a second empty
  match there). The result lists the matches; Python returns group 1 of each when the
  pattern has a group, and the matched text when it has none.
\<close>

function re_findall_from :: "regex \<Rightarrow> char option \<Rightarrow> string \<Rightarrow> (string \<times> mstate) list" where
  "re_findall_from r p s =
     (case re_search_from r p s of
        None \<Rightarrow> []
      | Some m \<Rightarrow>
          m # (if m_rest (snd m) = fst m
               then (case fst m of [] \<Rightarrow> [] | y # ys \<Rightarrow> re_findall_from r (Some y) ys)
               else re_findall_from r (m_prev (snd m)) (m_rest (snd m))))"
  by pat_completeness auto

text \<open>Every result of the matcher is a state further to the right in the same text.\<close>

lemma rep_greedy_suffix:
  "rep_greedy c lo hi p s k = Some r \<Longrightarrow> \<exists>p' s'. k p' s' = Some r \<and> suffix s' s"
proof (induction s arbitrary: lo hi p)
  case Nil
  then show ?case by (auto split: if_splits)
next
  case (Cons x xs)
  show ?case
  proof (cases "rep_greedy c (lo - 1) (map_option (\<lambda>h. h - 1) hi) (Some x) xs k")
    case None
    with Cons.prems have "k p (x # xs) = Some r"
      by (auto split: if_splits)
    then show ?thesis by blast
  next
    case (Some r')
    show ?thesis
    proof (cases "cmatch c x \<and> hi \<noteq> Some 0")
      case True
      with Some Cons.prems have "r' = r" by simp
      with Some Cons.IH obtain p' s' where "k p' s' = Some r" "suffix s' xs" by blast
      then show ?thesis by (blast intro: suffix_ConsI)
    next
      case False
      with Cons.prems have "k p (x # xs) = Some r"
        by (auto split: if_splits)
      then show ?thesis by blast
    qed
  qed
qed

lemma rep_lazy_suffix:
  "rep_lazy c lo hi p s k = Some r \<Longrightarrow> \<exists>p' s'. k p' s' = Some r \<and> suffix s' s"
proof (induction s arbitrary: lo hi p)
  case Nil
  then show ?case by (auto split: if_splits)
next
  case (Cons x xs)
  show ?case
  proof (cases "if lo = 0 then k p (x # xs) else None")
    case (Some r')
    with Cons.prems have "k p (x # xs) = Some r"
      by (auto split: if_splits)
    then show ?thesis by blast
  next
    case None
    with Cons.prems
    have "rep_lazy c (lo - 1) (map_option (\<lambda>h. h - 1) hi) (Some x) xs k = Some r"
      by (auto split: if_splits)
    with Cons.IH obtain p' s' where "k p' s' = Some r" "suffix s' xs" by blast
    then show ?thesis by (blast intro: suffix_ConsI)
  qed
qed

lemma rmatch_suffix:
  "rmatch r st k = Some res \<Longrightarrow>
     \<exists>st'. k st' = Some res \<and> suffix (m_rest st') (m_rest st)"
proof (induction r arbitrary: st k res)
  case (Str l)
  then have "k (st\<lparr>m_prev := (if l = [] then m_prev st else Some (last l)),
                 m_rest := drop (length l) (m_rest st)\<rparr>) = Some res"
    by (simp split: if_splits)
  then show ?case by (rule_tac exI, rule_tac conjI, assumption) (simp add: suffix_drop)
next
  case (Rep g c lo hi)
  have "\<exists>p' s'. k (st\<lparr>m_prev := p', m_rest := s'\<rparr>) = Some res \<and> suffix s' (m_rest st)"
  proof (cases g)
    case True
    with Rep have "rep_greedy c lo hi (m_prev st) (m_rest st)
        (\<lambda>p s. k (st\<lparr>m_prev := p, m_rest := s\<rparr>)) = Some res" by simp
    from rep_greedy_suffix [OF this] show ?thesis .
  next
    case False
    with Rep have "rep_lazy c lo hi (m_prev st) (m_rest st)
        (\<lambda>p s. k (st\<lparr>m_prev := p, m_rest := s\<rparr>)) = Some res" by simp
    from rep_lazy_suffix [OF this] show ?thesis .
  qed
  then obtain p' s' where "k (st\<lparr>m_prev := p', m_rest := s'\<rparr>) = Some res"
    and "suffix s' (m_rest st)" by blast
  then show ?case by (rule_tac exI [of _ "st\<lparr>m_prev := p', m_rest := s'\<rparr>"]) simp
next
  case (Seq a b)
  from Seq.prems have "rmatch a st (\<lambda>st'. rmatch b st' k) = Some res" by simp
  from Seq.IH(1) [OF this] obtain st1
    where 1: "rmatch b st1 k = Some res" and r1: "suffix (m_rest st1) (m_rest st)" by blast
  from Seq.IH(2) [OF 1] obtain st2
    where 2: "k st2 = Some res" and r2: "suffix (m_rest st2) (m_rest st1)" by blast
  from r1 r2 have "suffix (m_rest st2) (m_rest st)" by (rule suffix_order.trans [rotated])
  with 2 show ?case by blast
next
  case (Alt a b)
  then show ?case by (auto split: option.splits)
next
  case (Group r)
  from Group.prems have "rmatch r st (\<lambda>st'. k (st'\<lparr>m_grp :=
        Some (take (length (m_rest st) - length (m_rest st')) (m_rest st))\<rparr>)) = Some res"
    by simp
  from Group.IH [OF this] obtain st1
    where 1: "k (st1\<lparr>m_grp := Some (take (length (m_rest st) - length (m_rest st1)) (m_rest st))\<rparr>) = Some res"
      and r1: "suffix (m_rest st1) (m_rest st)" by blast
  show ?case
    by (rule exI [of _ "st1\<lparr>m_grp := Some (take (length (m_rest st) - length (m_rest st1)) (m_rest st))\<rparr>"])
       (simp add: 1 r1)
next
  case Bol_multiline
  then have "k st = Some res" by (auto split: if_splits)
  then show ?case by blast
next
  case Eol
  then have "k st = Some res" by (auto split: if_splits)
  then show ?case by blast
next
  case Eol_multiline
  then have "k st = Some res"
    by (auto split: if_splits list.splits)
  then show ?case by blast
qed

lemma match_here_suffix:
  "match_here r p s = Some st \<Longrightarrow> suffix (m_rest st) s"
  unfolding match_here_def by (drule rmatch_suffix) auto

lemma re_search_from_suffix:
  "re_search_from r p s = Some (s0, st) \<Longrightarrow> suffix s0 s \<and> suffix (m_rest st) s0"
proof (induction s arbitrary: p)
  case Nil
  then show ?case by (auto split: option.splits dest: match_here_suffix)
next
  case (Cons x xs)
  show ?case
  proof (cases "match_here r p (x # xs)")
    case None
    with Cons.prems have "re_search_from r (Some x) xs = Some (s0, st)" by simp
    from Cons.IH [OF this] show ?thesis by (simp add: suffix_ConsI)
  next
    case (Some st')
    with Cons.prems have "s0 = x # xs" and "st' = st" by simp_all
    with Some match_here_suffix [of r p "x # xs" st] show ?thesis by simp
  qed
qed

lemma re_search_from_length:
  "re_search_from r p s = Some (s0, st) \<Longrightarrow>
     length s0 \<le> length s \<and> length (m_rest st) \<le> length s0"
  by (drule re_search_from_suffix) (auto dest: suffix_length_le)

termination re_findall_from
proof (relation "measure (\<lambda>(r, p, s). length s)", goal_cases)
  case 1
  show ?case by simp
next
  case (2 r p s m y ys)
  then have "re_search_from r p s = Some (y # ys, snd m)"
    by (cases m) simp
  from re_search_from_length [OF this] show ?case by simp
next
  case (3 r p s m)
  then have *: "re_search_from r p s = Some (fst m, snd m)" by simp
  from re_search_from_suffix [OF *] 3(2)
  have "length (m_rest (snd m)) < length (fst m)"
    by (metis suffix_length_le suffix_order.antisym suffix_length_suffix le_neq_implies_less order_refl)
  with re_search_from_length [OF *] show ?case by simp
qed

definition re_findall_groups :: "regex \<Rightarrow> string \<Rightarrow> string list" where
  "re_findall_groups r s =
     map (\<lambda>m. case group1 m of Some g \<Rightarrow> g | None \<Rightarrow> []) (re_findall_from r None s)"

definition re_findall_whole :: "regex \<Rightarrow> string \<Rightarrow> string list" where
  "re_findall_whole r s = map group0 (re_findall_from r None s)"

section \<open>The program\<close>

subsection \<open>The patterns of \<open>process_pdf\<close>\<close>

text \<open>\<^verbatim>\<open>r"(?:Oficio|Memorando) Nro\.\s*(.+?)\n"\<close>\<close>

definition name_pat :: regex where
  "name_pat = seqs [Alt (Str ''Oficio'') (Str ''Memorando''), Str '' Nro.'',
     Rep True Space 0 None, Group (Rep False Dot 1 None), Str [NL]]"

text \<open>\<^verbatim>\<open>r"(\d{1,2}\s+de\s+\w+\s+de\s+\d{4})"\<close>\<close>

definition date_pat :: regex where
  "date_pat = Group (seqs [Rep True Digit 1 (Some 2), Rep True Space 1 None, Str ''de'',
     Rep True Space 1 None, Rep True Wordc 1 None, Rep True Space 1 None, Str ''de'',
     Rep True Space 1 None, Rep True Digit 4 (Some 4)])"

text \<open>\<^verbatim>\<open>r"\d+|\w+"\<close>\<close>

definition date_parts_pat :: regex where
  "date_parts_pat = Alt (Rep True Digit 1 None) (Rep True Wordc 1 None)"

text \<open>\<^verbatim>\<open>r"(?:Asunto:|ASUNTO:)\s*(.+?)\n"\<close>\<close>

definition subject_pat :: regex where
  "subject_pat = seqs [Alt (Str ''Asunto:'') (Str ''ASUNTO:''),
     Rep True Space 0 None, Group (Rep False Dot 1 None), Str [NL]]"

text \<open>\<^verbatim>\<open>r"Referencias:\s*(.*?)(?:\n|$)"\<close> with \<open>re.DOTALL\<close>\<close>

definition references_pat :: regex where
  "references_pat = seqs [Str ''Referencias:'', Rep True Space 0 None,
     Group (Rep False DotAll 0 None), Alt (Str [NL]) Eol]"

text \<open>\<^verbatim>\<open>r"Anexos:\s*(.*?)(?:\n\n|$)"\<close> with \<open>re.DOTALL\<close>\<close>

definition annexes_section_pat :: regex where
  "annexes_section_pat = seqs [Str ''Anexos:'', Rep True Space 0 None,
     Group (Rep False DotAll 0 None), Alt (Str [NL, NL]) Eol]"

text \<open>\<^verbatim>\<open>r"^-\s*(.+)$"\<close> with \<open>re.MULTILINE\<close>\<close>

definition annex_pat :: regex where
  "annex_pat = seqs [Bol_multiline, Str ''-'', Rep True Space 0 None,
     Group (Rep True Dot 1 None), Eol_multiline]"

subsection \<open>\<open>PDFExtractor\<close>\<close>

text \<open>
  \<open>extract_field_with_regex\<close>: group 1 of the first match, stripped, or the sentinel.
  (\<open>group(1)\<close> of a group that took no part in the match is \<open>None\<close>, which has no
  \<open>strip\<close>.)
\<close>

definition extract_field_with_regex :: "string \<Rightarrow> regex \<Rightarrow> py_error + string" where
  "extract_field_with_regex s pattern =
     (case re_search pattern s of
        None \<Rightarrow> Inr ''No encontrado''
      | Some m \<Rightarrow> (case group1 m of None \<Rightarrow> Inl AttributeError | Some g \<Rightarrow> Inr (strip g)))"

text \<open>The dictionary \<open>months\<close>.\<close>

definition months :: "string \<rightharpoonup> string" where
  "months = map_of [(''enero'', ''01''), (''febrero'', ''02''), (''marzo'', ''03''),
     (''abril'', ''04''), (''mayo'', ''05''), (''junio'', ''06''), (''julio'', ''07''),
     (''agosto'', ''08''), (''septiembre'', ''09''), (''octubre'', ''10''),
     (''noviembre'', ''11''), (''diciembre'', ''12'')]"

text \<open>
  The fields of \<open>process_pdf\<close>, one definition for each: \<open>doc_name\<close> (line 57),
  \<open>date\<close> (lines 58 to 68), \<open>subject\<close> (line 70), \<open>references\<close> (lines 72 to 77)
  and \<open>annexes\<close> (lines 79 to 83). In the f-string of line 66 the three parts are
  evaluated from the left: \<open>date_parts[0]\<close>, the lookup in \<open>months\<close>, then
  \<open>date_parts[4]\<close>.
\<close>

definition doc_name_field :: "string \<Rightarrow> py_error + string" where
  "doc_name_field s = extract_field_with_regex s name_pat"

definition date_field :: "string \<Rightarrow> py_error + string" where
  "date_field s =
     (case extract_field_with_regex s date_pat of
        Inl e \<Rightarrow> Inl e
      | Inr date_match \<Rightarrow>
          if date_match \<noteq> ''No encontrado'' then
            (let date_parts = re_findall_whole date_parts_pat date_match in
             case py_index date_parts 0 of
               Inl e \<Rightarrow> Inl e
             | Inr day \<Rightarrow>
                 (case py_index date_parts 2 of
                    Inl e \<Rightarrow> Inl e
                  | Inr month \<Rightarrow>
                      (case months (lower month) of
                         None \<Rightarrow> Inl (KeyError (lower month))
                       | Some mm \<Rightarrow>
                           (case py_index date_parts 4 of
                              Inl e \<Rightarrow> Inl e
                            | Inr year \<Rightarrow> Inr (day @ ''-'' @ mm @ ''-'' @ year)))))
          else Inr ''No encontrada'')"

definition subject_field :: "string \<Rightarrow> py_error + string" where
  "subject_field s = extract_field_with_regex s subject_pat"

definition references_field :: "string \<Rightarrow> py_error + string" where
  "references_field s =
     (case (case re_search references_pat s of
              None \<Rightarrow> Inr []
            | Some m \<Rightarrow>
                (case group1 m of
                   None \<Rightarrow> Inl AttributeError
                 | Some references_text \<Rightarrow>
                     Inr (filter (\<lambda>r. r \<noteq> [])
                            (map strip (split references_text ''- ''))))) of
        Inl e \<Rightarrow> Inl e
      | Inr references \<Rightarrow>
          Inr (if references \<noteq> [] then join '', '' references else ''No encontradas''))"

definition annexes_field :: "string \<Rightarrow> py_error + string list" where
  "annexes_field s =
     (case re_search annexes_section_pat s of
        None \<Rightarrow> Inr []
      | Some m \<Rightarrow>
          (case group1 m of
             None \<Rightarrow> Inl TypeError
           | Some annexes_section \<Rightarrow> Inr (re_findall_groups annex_pat annexes_section)))"

text \<open>A row of the result: the dictionary with the five keys.\<close>

record row =
  Nombre :: string
  Fecha :: string
  Asunto :: string
  Anexo :: string
  Referencias :: string

text \<open>Lines 85 to 104: one row for each annex, or one row with the sentinel.\<close>

definition make_rows :: "string \<Rightarrow> string \<Rightarrow> string \<Rightarrow> string \<Rightarrow> string list \<Rightarrow> row list" where
  "make_rows doc_name date subject references annexes =
     (let rows = foldl (\<lambda>rows annex. rows @
                   [\<lparr>Nombre = doc_name, Fecha = date, Asunto = subject, Anexo = annex,
                     Referencias = references\<rparr>]) [] annexes
      in if rows = []
         then rows @ [\<lparr>Nombre = doc_name, Fecha = date, Asunto = subject,
                        Anexo = ''No encontrado'', Referencias = references\<rparr>]
         else rows)"

text \<open>
  Lines 56 to 104 of \<open>process_pdf\<close>: the rows of one text. An exception of a field
  ends the function.
\<close>

definition extract_rows :: "string \<Rightarrow> py_error + row list" where
  "extract_rows s =
     (case doc_name_field s of
        Inl e \<Rightarrow> Inl e
      | Inr doc_name \<Rightarrow>
     (case date_field s of
        Inl e \<Rightarrow> Inl e
      | Inr date \<Rightarrow>
     (case subject_field s of
        Inl e \<Rightarrow> Inl e
      | Inr subject \<Rightarrow>
     (case references_field s of
        Inl e \<Rightarrow> Inl e
      | Inr references \<Rightarrow>
     (case annexes_field s of
        Inl e \<Rightarrow> Inl e
      | Inr annexes \<Rightarrow> Inr (make_rows doc_name date subject references annexes))))))"

text \<open>
  The files. \<open>fs_listdir\<close> is \<open>os.listdir\<close>; \<open>fs_pages\<close> is what \<open>PdfReader\<close>
  and \<open>extract_text\<close> give for a path: the texts of the pages, or \<open>None\<close> when
  either raises.
\<close>

record filesystem =
  fs_listdir :: "string \<Rightarrow> string list"
  fs_pages :: "string \<Rightarrow> string list option"

definition extract_text_from_pdf :: "filesystem \<Rightarrow> string \<Rightarrow> string" where
  "extract_text_from_pdf fs pdf_path =
     (case fs_pages fs pdf_path of None \<Rightarrow> [] | Some pages \<Rightarrow> concat pages)"

definition process_pdf :: "filesystem \<Rightarrow> string \<Rightarrow> py_error + row list" where
  "process_pdf fs pdf_path =
     (let s = extract_text_from_pdf fs pdf_path
      in if s = [] then Inr [] else extract_rows s)"

text \<open>\<open>os.path.join\<close> of two components (posixpath).\<close>

definition path_join :: "string \<Rightarrow> string \<Rightarrow> string" where
  "path_join a b =
     (if b \<noteq> [] \<and> hd b = CHR ''/'' then b
      else if a = [] \<or> last a = CHR ''/'' then a @ b
      else a @ ''/'' @ b)"

text \<open>The loop of \<open>process_directory\<close> over the names, \<open>data\<close> the rows so far.\<close>

fun process_files :: "filesystem \<Rightarrow> string \<Rightarrow> row list \<Rightarrow> string list \<Rightarrow> py_error + row list" where
  "process_files fs directory data [] = Inr data"
| "process_files fs directory data (filename # filenames) =
     (if endswith (lower filename) ''.pdf'' then
        (case process_pdf fs (path_join directory filename) of
           Inl e \<Rightarrow> Inl e
         | Inr rows \<Rightarrow> process_files fs directory (data @ rows) filenames)
      else process_files fs directory data filenames)"

definition process_directory :: "filesystem \<Rightarrow> string \<Rightarrow> py_error + row list" where
  "process_directory fs directory = process_files fs directory [] (fs_listdir fs directory)"

subsection \<open>The environment and the start of the program\<close>

text \<open>\<open>env.str(var)\<close>: the value of the variable, or \<open>EnvError\<close>.\<close>

definition env_str :: "(string \<rightharpoonup> string) \<Rightarrow> string \<Rightarrow> py_error + string" where
  "env_str env var = (case env var of None \<Rightarrow> Inl (EnvError var) | Some v \<Rightarrow> Inr v)"

definition verify_environment_variables :: "(string \<rightharpoonup> string) \<Rightarrow> py_error + unit" where
  "verify_environment_variables env =
     (let required_vars = [''SERVER_ROUTE'', ''DOWNLOAD_ROUTE''];
          missing_vars = foldl (\<lambda>missing var.
             case env_str env var of Inl e \<Rightarrow> missing @ [var] | Inr v \<Rightarrow> missing)
             [] required_vars
      in if missing_vars \<noteq> []
         then Inl (EnvironmentError
                (''Faltan las siguientes variables de entorno: '' @ join '', '' missing_vars))
         else Inr ())"

text \<open>
  The statements of the module, lines 171 to 179: the two settings are read, the
  directory is processed, and the rows go to \<open>save_to_excel_with_style\<close> with the path
  of the output file (the result here). \<open>verify_environment_variables\<close> is not called.
\<close>

definition run_module :: "(string \<rightharpoonup> string) \<Rightarrow> filesystem \<Rightarrow> py_error + (string \<times> row list)" where
  "run_module env fs =
     (case env_str env ''SERVER_ROUTE'' of
        Inl e \<Rightarrow> Inl e
      | Inr directory \<Rightarrow>
     (case env_str env ''DOWNLOAD_ROUTE'' of
        Inl e \<Rightarrow> Inl e
      | Inr download \<Rightarrow>
     (let output_file = path_join download ''datos_pdfs.xlsx'' in
      case process_directory fs directory of
        Inl e \<Rightarrow> Inl e
      | Inr df \<Rightarrow> Inr (output_file, df))))"

section \<open>Definitions for the statements\<close>

text \<open>
  The notions the statements below are written in: what it means for a text to
  occur in another, the text after a label, the parts of a matched date, the items of
  an annex section, and the example documents and directories.
\<close>

text \<open>
  A directory for the examples: three PDF files and two other entries. The first file
  has one page with a document number, the second cannot be read, the third has a
  subject line.
\<close>

definition fs_example :: filesystem where
  "fs_example = \<lparr>fs_listdir = (\<lambda>d. if d = ''in''
        then [''a.pdf'', ''notes.txt'', ''B.PDF'', ''img.png'', ''c.Pdf''] else []),
     fs_pages = (\<lambda>p. if p = ''in/a.pdf'' then Some [''Oficio Nro. 7'', [NL]]
                     else if p = ''in/B.PDF'' then None
                     else if p = ''in/c.Pdf'' then Some [''Asunto: x'' @ [NL]]
                     else Some [])\<rparr>"

definition rows_example :: "string \<Rightarrow> row list" where
  "rows_example f =
     (if f = ''a.pdf'' then [\<lparr>Nombre = ''7'', Fecha = ''No encontrada'', Asunto = ''No encontrado'',
         Anexo = ''No encontrado'', Referencias = ''No encontradas''\<rparr>]
      else if f = ''c.Pdf'' then [\<lparr>Nombre = ''No encontrado'', Fecha = ''No encontrada'',
         Asunto = ''x'', Anexo = ''No encontrado'', Referencias = ''No encontradas''\<rparr>]
      else [])"

text \<open>
  \<open>accepts r p c t\<close>: the pattern \<open>r\<close> can match the text \<open>c\<close> when \<open>p\<close> is the
  character before it and \<open>t\<close> the text after it. Every result of the matcher is
  accepted in this sense (\<open>rmatch_sound\<close>); which of the accepted texts the matcher
  takes is the matter of the lemmas on the single patterns.
\<close>

text \<open>The character before the position after \<open>c\<close>, when \<open>p\<close> is the one before \<open>c\<close>.\<close>

definition lastp :: "char option \<Rightarrow> string \<Rightarrow> char option" where
  "lastp p c = (if c = [] then p else Some (last c))"

definition in_bounds :: "nat \<Rightarrow> nat option \<Rightarrow> nat \<Rightarrow> bool" where
  "in_bounds lo hi n = (lo \<le> n \<and> (case hi of None \<Rightarrow> True | Some h \<Rightarrow> n \<le> h))"

fun accepts :: "regex \<Rightarrow> char option \<Rightarrow> string \<Rightarrow> string \<Rightarrow> bool" where
  "accepts (Str l) p c t = (c = l)"
| "accepts (Rep g cl lo hi) p c t = (list_all (cmatch cl) c \<and> in_bounds lo hi (length c))"
| "accepts (Seq a b) p c t =
     (\<exists>c1 c2. c = c1 @ c2 \<and> accepts a p c1 (c2 @ t) \<and> accepts b (lastp p c1) c2 t)"
| "accepts (Alt a b) p c t = (accepts a p c t \<or> accepts b p c t)"
| "accepts (Group r) p c t = accepts r p c t"
| "accepts Bol_multiline p c t = (c = [] \<and> (p = None \<or> p = Some NL))"
| "accepts Eol p c t = (c = [] \<and> (t = [] \<or> t = [NL]))"
| "accepts Eol_multiline p c t = (c = [] \<and> (t = [] \<or> hd t = NL))"

text \<open>Every match of the pattern goes through its group.\<close>

fun has_grp :: "regex \<Rightarrow> bool" where
  "has_grp (Group r) = True"
| "has_grp (Seq a b) = (has_grp a \<or> has_grp b)"
| "has_grp (Alt a b) = (has_grp a \<and> has_grp b)"
| "has_grp r = False"


text \<open>The text after the first occurrence of \<open>lbl\<close> in \<open>s\<close>, if there is one.\<close>

fun after_label :: "string \<Rightarrow> string \<Rightarrow> string option" where
  "after_label lbl [] = (if lbl = [] then Some [] else None)"
| "after_label lbl (x # xs) =
     (if prefix lbl (x # xs) then Some (drop (length lbl) (x # xs)) else after_label lbl xs)"

text \<open>
  The text up to the first occurrence of \<open>e\<close>, or up to the end of the text, a
  newline that ends the text left out.
\<close>

fun until_stop :: "string \<Rightarrow> string \<Rightarrow> string" where
  "until_stop e [] = []"
| "until_stop e (x # xs) =
     (if prefix e (x # xs) \<or> x # xs = [NL] then [] else x # until_stop e xs)"

text \<open>
  The references as the specification describes them, with the one change that a
  section without any piece gives the sentinel: the text after the label and the white
  space that follows it, up to the next newline or the end, split on \<open>"- "\<close>, each
  piece stripped, the empty pieces dropped, the rest joined with \<open>", "\<close>.
\<close>

definition references_spec :: "string \<Rightarrow> string" where
  "references_spec s =
     (case after_label ''Referencias:'' s of
        None \<Rightarrow> ''No encontradas''
      | Some post \<Rightarrow>
          (let captured = takeWhile (\<lambda>c. c \<noteq> NL) (dropWhile is_space post);
               pieces = filter (\<lambda>r. r \<noteq> []) (map strip (split captured ''- ''))
           in if pieces = [] then ''No encontradas'' else join '', '' pieces))"

text \<open>The same without that change: the join of the pieces, whatever their number.\<close>

definition references_as_claimed :: "string \<Rightarrow> string" where
  "references_as_claimed s =
     (case after_label ''Referencias:'' s of
        None \<Rightarrow> ''No encontradas''
      | Some post \<Rightarrow>
          join '', '' (filter (\<lambda>r. r \<noteq> [])
            (map strip (split (takeWhile (\<lambda>c. c \<noteq> NL) (dropWhile is_space post)) ''- ''))))"

text \<open>
  The parts of a date: the matches of \<open>\d+|\w+\<close> from a position on. A run of digits
  is one part, a run of word characters that does not start with a digit is one part,
  white space is skipped.
\<close>

definition parts_from :: "char option \<Rightarrow> string \<Rightarrow> string list" where
  "parts_from p s = map group0 (re_findall_from date_parts_pat p s)"

text \<open>
  The day, the month name and the year of a matched date: the leading digits, the word
  after the first \<open>de\<close>, the last four characters. Every match of the date pattern
  has the shape \<open>day de month de year\<close> with white space between the words.
\<close>

definition day_of :: "string \<Rightarrow> string" where
  "day_of g = takeWhile is_digit g"

definition month_of :: "string \<Rightarrow> string" where
  "month_of g = takeWhile is_word (dropWhile is_space (drop 2
     (dropWhile is_space (dropWhile is_digit g))))"

definition year_of :: "string \<Rightarrow> string" where
  "year_of g = drop (length g - 4) g"

definition date_shape :: "string \<Rightarrow> string \<Rightarrow> string \<Rightarrow> string \<Rightarrow> string \<Rightarrow> string \<Rightarrow> string \<Rightarrow> bool" where
  "date_shape d w1 w2 mon w3 w4 y =
     (d \<noteq> [] \<and> length d \<le> 2 \<and> list_all is_digit d
      \<and> w1 \<noteq> [] \<and> list_all is_space w1 \<and> w2 \<noteq> [] \<and> list_all is_space w2
      \<and> mon \<noteq> [] \<and> list_all is_word mon
      \<and> w3 \<noteq> [] \<and> list_all is_space w3 \<and> w4 \<noteq> [] \<and> list_all is_space w4
      \<and> length y = 4 \<and> list_all is_digit y)"

text \<open>The form \<open>DD-MM-YYYY\<close>: two digits, a dash, two digits, a dash, four digits.\<close>

definition dd_mm_yyyy :: "string \<Rightarrow> bool" where
  "dd_mm_yyyy v = (length v = 10 \<and> list_all is_digit (take 2 v) \<and> v ! 2 = CHR ''-''
     \<and> list_all is_digit (take 2 (drop 3 v)) \<and> v ! 5 = CHR ''-''
     \<and> list_all is_digit (drop 6 v))"

text \<open>A directory whose second file has a date with the month \<open>x\<close>.\<close>

definition fs_unknown_month :: filesystem where
  "fs_unknown_month = \<lparr>fs_listdir = (\<lambda>d. [''a.pdf'', ''b.pdf'']),
     fs_pages = (\<lambda>p. if p = ''in/a.pdf'' then Some [''Oficio Nro. 7'' @ [NL]]
                     else Some [''1 de x de 2021''])\<rparr>"

text \<open>A document with all five fields and two annexes.\<close>

definition doc_example :: string where
  "doc_example = ''Memorando Nro. M-7'' @ [NL] @ ''Quito, 15 de marzo de 2021'' @ [NL]
     @ ''Asunto: Entrega'' @ [NL] @ ''Referencias:'' @ [NL] @ ''A - B - C'' @ [NL]
     @ ''Anexos:'' @ [NL] @ ''- uno'' @ [NL] @ ''- dos'' @ [NL]"

text \<open>
  The annex items of a section, read from the left; \<open>bol\<close> says that the position is
  the start of a line. A line that starts with a dash gives one item: the rest of the
  line after the dash and the white space that follows it. When only white space
  follows the dash on its line, that white space goes on over the next lines, and the
  item is the rest of the first line with other text; when nothing but white space
  follows up to the end, the item is the last white space character that is not a
  newline. Reading goes on after the item.
\<close>

function annex_items :: "bool \<Rightarrow> string \<Rightarrow> string list" where
  "annex_items bol [] = []"
| "annex_items bol (x # xs) =
     (if bol \<and> x = CHR ''-'' then
        (let u = dropWhile is_space xs in
         if u \<noteq> []
         then takeWhile (\<lambda>c. c \<noteq> NL) u # annex_items False (dropWhile (\<lambda>c. c \<noteq> NL) u)
         else (case filter (\<lambda>c. c \<noteq> NL) xs of [] \<Rightarrow> [] | c # cs \<Rightarrow> [[last (c # cs)]]))
      else annex_items (x = NL) xs)"
  by pat_completeness auto

termination
  by (relation "measure (\<lambda>(b, s). length s)")
     (auto simp: less_Suc_eq_le intro!: order_trans [OF length_dropWhile_le length_dropWhile_le])

text \<open>The lines of the captured section that begin with a dash and a space.\<close>

definition annex_lines_as_claimed :: "string \<Rightarrow> string list" where
  "annex_lines_as_claimed s =
     (case after_label ''Anexos:'' s of
        None \<Rightarrow> []
      | Some post \<Rightarrow>
          filter (prefix ''- '') (split (until_stop [NL, NL] (dropWhile is_space post)) [NL]))"

text \<open>What \<open>re.findall\<close> returns for a match of a pattern with a group.\<close>

definition item_of :: "string \<times> mstate \<Rightarrow> string" where
  "item_of m = (case group1 m of Some g \<Rightarrow> g | None \<Rightarrow> [])"

text \<open>
  The end of the annex pattern, \<open>(.+)$\<close>, from a position on: it takes the rest of the
  line, which must not be empty.
\<close>

definition item_cont :: "char option \<Rightarrow> string \<Rightarrow> mstate option" where
  "item_cont p s = rmatch (Group (Rep True Dot 1 None)) \<lparr>m_prev = p, m_rest = s, m_grp = None\<rparr>
     (\<lambda>st. rmatch Eol_multiline st Some)"

text \<open>
  The lines of a text, as \<open>s.split("\n")\<close> gives them: the pieces between the
  newlines.
\<close>

fun lines_of :: "string \<Rightarrow> string list" where
  "lines_of [] = [[]]"
| "lines_of (x # xs) =
     (if x = NL then [] # lines_of xs
      else (case lines_of xs of [] \<Rightarrow> [[x]] | l # ls \<Rightarrow> (x # l) # ls))"

text \<open>
  The annex section of a text: what follows the first \<open>Anexos:\<close> and the white space
  after it, up to the first blank line or the end of the text.
\<close>

definition annex_section :: "string \<Rightarrow> string option" where
  "annex_section s =
     map_option (\<lambda>post. until_stop [NL, NL] (dropWhile is_space post)) (after_label ''Anexos:'' s)"

text \<open>
  A line that begins with a dash, and its item: the rest of the line after the dash and
  the white space that follows it.
\<close>

definition dash_line :: "string \<Rightarrow> bool" where
  "dash_line l = (l \<noteq> [] \<and> hd l = CHR ''-'')"

definition dash_item :: "string \<Rightarrow> string" where
  "dash_item l = dropWhile is_space (tl l)"




section \<open>Row expansion and the batch\<close>

lemma foldl_snoc_map: "foldl (\<lambda>rows a. rows @ [f a]) acc xs = acc @ map f xs"
  by (induction xs arbitrary: acc) simp_all

lemma make_rows_eq:
  "make_rows n d sj rf annexes =
     (if annexes = []
      then [\<lparr>Nombre = n, Fecha = d, Asunto = sj, Anexo = ''No encontrado'', Referencias = rf\<rparr>]
      else map (\<lambda>a. \<lparr>Nombre = n, Fecha = d, Asunto = sj, Anexo = a, Referencias = rf\<rparr>) annexes)"
  by (simp add: make_rows_def foldl_snoc_map)

lemma fs_example_a: "process_pdf fs_example (path_join ''in'' ''a.pdf'') = Inr (rows_example ''a.pdf'')"
  by code_simp

lemma fs_example_b: "process_pdf fs_example (path_join ''in'' ''B.PDF'') = Inr (rows_example ''B.PDF'')"
  by code_simp

lemma fs_example_c: "process_pdf fs_example (path_join ''in'' ''c.Pdf'') = Inr (rows_example ''c.Pdf'')"
  by code_simp

lemma fs_example_names:
  "fs_listdir fs_example ''in'' = [''a.pdf'', ''notes.txt'', ''B.PDF'', ''img.png'', ''c.Pdf'']"
  by (simp add: fs_example_def)

lemma fs_example_pdfs:
  "filter (\<lambda>f. endswith (lower f) ''.pdf'') [''a.pdf'', ''notes.txt'', ''B.PDF'', ''img.png'', ''c.Pdf'']
     = [''a.pdf'', ''B.PDF'', ''c.Pdf'']"
  by code_simp

lemma process_files_skip:
  "process_pdf fs (path_join d f) = Inr [] \<Longrightarrow>
     process_files fs d data (before @ f # after) = process_files fs d data (before @ after)"
  by (induction before arbitrary: data) (auto split: sum.splits)

text \<open>
  Claim C8. A file whose text extraction raises (\<open>fs_pages\<close> is \<open>None\<close>) or gives
  the empty text has no rows, and the loop over the directory goes on as if the file
  were not listed: the files before and after it are processed the same way.
\<close>

theorem failed_pdf_contributes_no_records:
  assumes "fs_pages fs (path_join d f) = None
           \<or> (\<exists>pages. fs_pages fs (path_join d f) = Some pages \<and> concat pages = [])"
  shows "process_pdf fs (path_join d f) = Inr []
         \<and> process_files fs d data (before @ f # after) = process_files fs d data (before @ after)"
proof -
  from assms have "extract_text_from_pdf fs (path_join d f) = []"
    by (auto simp: extract_text_from_pdf_def)
  then have "process_pdf fs (path_join d f) = Inr []"
    by (simp add: process_pdf_def)
  then show ?thesis by (simp add: process_files_skip)
qed

theorem failed_pdf_contributes_no_records_witness:
  "fs_pages fs_example (path_join ''in'' ''B.PDF'') = None
   \<and> process_pdf fs_example (path_join ''in'' ''B.PDF'') = Inr []
   \<and> process_files fs_example ''in'' [] ([''a.pdf''] @ ''B.PDF'' # [''c.Pdf''])
       = process_files fs_example ''in'' [] ([''a.pdf''] @ [''c.Pdf''])"
proof -
  have h: "fs_pages fs_example (path_join ''in'' ''B.PDF'') = None"
    by (simp add: fs_example_def path_join_def)
  from failed_pdf_contributes_no_records [of fs_example "''in''" "''B.PDF''" "[]" "[''a.pdf'']" "[''c.Pdf'']"] h
  show ?thesis by blast
qed

lemma process_files_filter:
  "process_files fs d data (filter (\<lambda>f. endswith (lower f) ''.pdf'') names)
     = process_files fs d data names"
  by (induction names arbitrary: data) (auto split: sum.splits)

lemma process_files_concat:
  "\<forall>f \<in> set names. endswith (lower f) ''.pdf'' \<longrightarrow> process_pdf fs (path_join d f) = Inr (rows_of f)
   \<Longrightarrow> process_files fs d data names
       = Inr (data @ concat (map rows_of (filter (\<lambda>f. endswith (lower f) ''.pdf'') names)))"
  by (induction names arbitrary: data) auto

text \<open>
  Claim C9. \<open>process_directory\<close> lists the given directory once and no other one (the
  result is the same in every file system with the same listing of that directory and
  the same files); the entries whose name does not end in \<open>.pdf\<close>, in any case of
  letters, change nothing; and when \<open>rows_of\<close> gives the rows of each PDF file, the
  result is their concatenation in the order of the listing.
\<close>

theorem process_directory_order:
  "process_directory fs d
      = process_files fs d [] (filter (\<lambda>f. endswith (lower f) ''.pdf'') (fs_listdir fs d))
   \<and> ((\<forall>f \<in> set (fs_listdir fs d). endswith (lower f) ''.pdf''
           \<longrightarrow> process_pdf fs (path_join d f) = Inr (rows_of f))
        \<longrightarrow> process_directory fs d
            = Inr (concat (map rows_of
                (filter (\<lambda>f. endswith (lower f) ''.pdf'') (fs_listdir fs d)))))
   \<and> (fs_listdir fs' d = fs_listdir fs d \<and> fs_pages fs' = fs_pages fs
        \<longrightarrow> process_directory fs' d = process_directory fs d)"
proof (intro conjI impI)
  show "process_directory fs d
      = process_files fs d [] (filter (\<lambda>f. endswith (lower f) ''.pdf'') (fs_listdir fs d))"
    by (simp add: process_directory_def process_files_filter)
next
  assume "\<forall>f \<in> set (fs_listdir fs d). endswith (lower f) ''.pdf''
           \<longrightarrow> process_pdf fs (path_join d f) = Inr (rows_of f)"
  from process_files_concat [OF this, of "[]"]
  show "process_directory fs d = Inr (concat (map rows_of
                (filter (\<lambda>f. endswith (lower f) ''.pdf'') (fs_listdir fs d))))"
    by (simp add: process_directory_def)
next
  assume a: "fs_listdir fs' d = fs_listdir fs d \<and> fs_pages fs' = fs_pages fs"
  then have pp: "process_pdf fs' p = process_pdf fs p" for p
    by (simp add: process_pdf_def extract_text_from_pdf_def)
  have "process_files fs' d data names = process_files fs d data names" for data names
    by (induction names arbitrary: data) (simp_all add: pp split: sum.splits)
  with a show "process_directory fs' d = process_directory fs d"
    by (simp add: process_directory_def)
qed

theorem process_directory_order_witness:
  "process_directory fs_example ''in''
     = process_files fs_example ''in'' [] [''a.pdf'', ''B.PDF'', ''c.Pdf'']
   \<and> process_directory fs_example ''in''
     = Inr (rows_example ''a.pdf'' @ rows_example ''B.PDF'' @ rows_example ''c.Pdf'')"
proof -
  have h: "\<forall>f \<in> set (fs_listdir fs_example ''in''). endswith (lower f) ''.pdf''
      \<longrightarrow> process_pdf fs_example (path_join ''in'' f) = Inr (rows_example f)"
  proof -
    have "\<not> endswith (lower ''notes.txt'') ''.pdf''" and "\<not> endswith (lower ''img.png'') ''.pdf''"
      by code_simp+
    then show ?thesis
      unfolding fs_example_names using fs_example_a fs_example_b fs_example_c by simp
  qed
  note t = process_directory_order [of fs_example "''in''" rows_example fs_example]
  have 1: "process_directory fs_example ''in''
     = process_files fs_example ''in'' [] [''a.pdf'', ''B.PDF'', ''c.Pdf'']"
    using t [THEN conjunct1] by (simp only: fs_example_names fs_example_pdfs)
  have 2: "process_directory fs_example ''in''
     = Inr (rows_example ''a.pdf'' @ rows_example ''B.PDF'' @ rows_example ''c.Pdf'')"
    using t [THEN conjunct2, THEN conjunct1, THEN mp, OF h]
    by (simp only: fs_example_names fs_example_pdfs) simp
  from 1 2 show ?thesis by (rule conjI)
qed

text \<open>
  Claim C3. With neither setting in the environment, the statements of the module stop
  at the first \<open>env.str\<close> with an \<open>EnvError\<close> that names \<open>SERVER_ROUTE\<close> alone.
  \<open>verify_environment_variables\<close> would name both settings in one message, but the
  module never calls it.
\<close>

theorem module_start_reports_first_missing_only:
  "run_module Map.empty fs = Inl (EnvError ''SERVER_ROUTE'')
   \<and> verify_environment_variables Map.empty = Inl (EnvironmentError
        ''Faltan las siguientes variables de entorno: SERVER_ROUTE, DOWNLOAD_ROUTE'')"
  by (simp add: run_module_def verify_environment_variables_def env_str_def)

section \<open>What a match looks like\<close>

lemma lastp_simps [simp]:
  "lastp p [] = p" "lastp p (x # xs) = lastp (Some x) xs" "lastp p (xs @ [x]) = Some x"
  by (simp_all add: lastp_def)

lemma lastp_append: "lastp p (xs @ ys) = lastp (lastp p xs) ys"
  by (simp add: lastp_def)

lemma rep_greedy_sound:
  "rep_greedy c lo hi p s k = Some r \<Longrightarrow>
     \<exists>xs t. s = xs @ t \<and> list_all (cmatch c) xs \<and> in_bounds lo hi (length xs)
        \<and> k (lastp p xs) t = Some r"
proof (induction s arbitrary: lo hi p)
  case Nil
  then have "lo = 0" and "k p [] = Some r" by (auto split: if_splits)
  then show ?case by (intro exI [of _ "[]"]) (simp add: in_bounds_def split: option.splits)
next
  case (Cons x xs)
  have here: "lo = 0 \<Longrightarrow> k p (x # xs) = Some r \<Longrightarrow> ?case"
    by (intro exI [of _ "[]"] exI [of _ "x # xs"]) (simp add: in_bounds_def split: option.splits)
  show ?case
  proof (cases "cmatch c x \<and> hi \<noteq> Some 0")
    case False
    with Cons.prems here show ?thesis by (auto split: if_splits)
  next
    case True
    show ?thesis
    proof (cases "rep_greedy c (lo - 1) (map_option (\<lambda>h. h - 1) hi) (Some x) xs k")
      case None
      with True Cons.prems here show ?thesis by (auto split: if_splits)
    next
      case (Some r')
      with True Cons.prems have "r' = r" by simp
      with Some Cons.IH obtain ys t where *: "xs = ys @ t" "list_all (cmatch c) ys"
        "in_bounds (lo - 1) (map_option (\<lambda>h. h - 1) hi) (length ys)"
        "k (lastp (Some x) ys) t = Some r" by blast
      from *(3) True have "in_bounds lo hi (length (x # ys))"
        by (auto simp: in_bounds_def split: option.splits)
      with * True show ?thesis
        by (intro exI [of _ "x # ys"] exI [of _ t]) simp
    qed
  qed
qed

lemma rep_lazy_sound:
  "rep_lazy c lo hi p s k = Some r \<Longrightarrow>
     \<exists>xs t. s = xs @ t \<and> list_all (cmatch c) xs \<and> in_bounds lo hi (length xs)
        \<and> k (lastp p xs) t = Some r"
proof (induction s arbitrary: lo hi p)
  case Nil
  then have "lo = 0" and "k p [] = Some r" by (auto split: if_splits)
  then show ?case by (intro exI [of _ "[]"]) (simp add: in_bounds_def split: option.splits)
next
  case (Cons x xs)
  have here: "lo = 0 \<Longrightarrow> k p (x # xs) = Some r \<Longrightarrow> ?case"
    by (intro exI [of _ "[]"] exI [of _ "x # xs"]) (simp add: in_bounds_def split: option.splits)
  show ?case
  proof (cases "if lo = 0 then k p (x # xs) else None")
    case (Some r')
    with Cons.prems here show ?thesis by (auto split: if_splits)
  next
    case None
    with Cons.prems have True: "cmatch c x \<and> hi \<noteq> Some 0"
      and "rep_lazy c (lo - 1) (map_option (\<lambda>h. h - 1) hi) (Some x) xs k = Some r"
      by (auto split: if_splits)
    with Cons.IH obtain ys t where *: "xs = ys @ t" "list_all (cmatch c) ys"
        "in_bounds (lo - 1) (map_option (\<lambda>h. h - 1) hi) (length ys)"
        "k (lastp (Some x) ys) t = Some r" by blast
    from *(3) True have "in_bounds lo hi (length (x # ys))"
      by (auto simp: in_bounds_def split: option.splits)
    with * True show ?thesis
      by (intro exI [of _ "x # ys"] exI [of _ t]) simp
  qed
qed

lemma rmatch_sound:
  "rmatch r st k = Some res \<Longrightarrow>
     \<exists>c t g. m_rest st = c @ t \<and> accepts r (m_prev st) c t
        \<and> k \<lparr>m_prev = lastp (m_prev st) c, m_rest = t, m_grp = g\<rparr> = Some res
        \<and> (m_grp st \<noteq> None \<longrightarrow> g \<noteq> None)"
proof (induction r arbitrary: st k res)
  case (Str l)
  then have 1: "take (length l) (m_rest st) = l"
    and 2: "k (st\<lparr>m_prev := lastp (m_prev st) l, m_rest := drop (length l) (m_rest st)\<rparr>) = Some res"
    by (auto simp: lastp_def split: if_splits)
  from 1 have "m_rest st = l @ drop (length l) (m_rest st)"
    by (metis append_take_drop_id)
  with 2 show ?case
    by (intro exI [of _ l] exI [of _ "drop (length l) (m_rest st)"] exI [of _ "m_grp st"])
       (cases st, simp)
next
  case (Rep g c lo hi)
  have "\<exists>xs t. m_rest st = xs @ t \<and> list_all (cmatch c) xs \<and> in_bounds lo hi (length xs)
        \<and> k (st\<lparr>m_prev := lastp (m_prev st) xs, m_rest := t\<rparr>) = Some res"
  proof (cases g)
    case True
    with Rep have "rep_greedy c lo hi (m_prev st) (m_rest st)
        (\<lambda>p s. k (st\<lparr>m_prev := p, m_rest := s\<rparr>)) = Some res" by simp
    from rep_greedy_sound [OF this] show ?thesis .
  next
    case False
    with Rep have "rep_lazy c lo hi (m_prev st) (m_rest st)
        (\<lambda>p s. k (st\<lparr>m_prev := p, m_rest := s\<rparr>)) = Some res" by simp
    from rep_lazy_sound [OF this] show ?thesis .
  qed
  then obtain xs t where "m_rest st = xs @ t" "list_all (cmatch c) xs"
    "in_bounds lo hi (length xs)"
    "k (st\<lparr>m_prev := lastp (m_prev st) xs, m_rest := t\<rparr>) = Some res" by blast
  then show ?case
    by (intro exI [of _ xs] exI [of _ t] exI [of _ "m_grp st"]) (cases st, simp)
next
  case (Seq a b)
  from Seq.prems have "rmatch a st (\<lambda>st'. rmatch b st' k) = Some res" by simp
  from Seq.IH(1) [OF this] obtain c1 t1 g1 where 1: "m_rest st = c1 @ t1"
    "accepts a (m_prev st) c1 t1"
    "rmatch b \<lparr>m_prev = lastp (m_prev st) c1, m_rest = t1, m_grp = g1\<rparr> k = Some res"
    "m_grp st \<noteq> None \<longrightarrow> g1 \<noteq> None" by blast
  from Seq.IH(2) [OF 1(3)] obtain c2 t2 g2 where 2: "t1 = c2 @ t2"
    "accepts b (lastp (m_prev st) c1) c2 t2"
    "k \<lparr>m_prev = lastp (lastp (m_prev st) c1) c2, m_rest = t2, m_grp = g2\<rparr> = Some res"
    "g1 \<noteq> None \<longrightarrow> g2 \<noteq> None" by auto
  from 1 2 have "accepts (Seq a b) (m_prev st) (c1 @ c2) t2" by auto
  with 1 2 show ?case
    by (intro exI [of _ "c1 @ c2"] exI [of _ t2] exI [of _ g2]) (simp add: lastp_append)
next
  case (Alt a b)
  show ?case
  proof (cases "rmatch a st k")
    case None
    with Alt.prems have "rmatch b st k = Some res" by simp
    from Alt.IH(2) [OF this] show ?thesis by auto
  next
    case (Some r')
    with Alt.prems have "rmatch a st k = Some res" by simp
    from Alt.IH(1) [OF this] show ?thesis by auto
  qed
next
  case (Group r)
  let ?k = "\<lambda>st'. k (st'\<lparr>m_grp :=
        Some (take (length (m_rest st) - length (m_rest st')) (m_rest st))\<rparr>)"
  from Group.prems have "rmatch r st ?k = Some res" by simp
  from Group.IH [OF this] obtain c t g where 1: "m_rest st = c @ t"
    "accepts r (m_prev st) c t"
    "?k \<lparr>m_prev = lastp (m_prev st) c, m_rest = t, m_grp = g\<rparr> = Some res" by blast
  then show ?case
    by (intro exI [of _ c] exI [of _ t] exI [of _ "Some c"]) simp
next
  case Bol_multiline
  then have "k st = Some res" "m_prev st = None \<or> m_prev st = Some NL"
    by (auto split: if_splits)
  then show ?case
    by (intro exI [of _ "[]"] exI [of _ "m_rest st"] exI [of _ "m_grp st"]) (cases st, simp)
next
  case Eol
  then have "k st = Some res" "m_rest st = [] \<or> m_rest st = [NL]"
    by (auto split: if_splits)
  then show ?case
    by (intro exI [of _ "[]"] exI [of _ "m_rest st"] exI [of _ "m_grp st"]) (cases st, simp)
next
  case Eol_multiline
  then have "k st = Some res" "m_rest st = [] \<or> hd (m_rest st) = NL"
    by (auto split: if_splits list.splits)
  then show ?case
    by (intro exI [of _ "[]"] exI [of _ "m_rest st"] exI [of _ "m_grp st"]) (cases st, simp)
qed

lemma match_here_sound:
  "match_here r p s = Some st \<Longrightarrow>
     \<exists>c. s = c @ m_rest st \<and> accepts r p c (m_rest st) \<and> m_prev st = lastp p c"
  unfolding match_here_def by (drule rmatch_sound) auto

lemma match_here_Group:
  "match_here (Group r) p s = Some st \<Longrightarrow>
     \<exists>c. s = c @ m_rest st \<and> accepts r p c (m_rest st) \<and> m_prev st = lastp p c
        \<and> m_grp st = Some c"
  unfolding match_here_def rmatch.simps by (drule rmatch_sound) auto

lemma rmatch_has_grp:
  "has_grp r \<Longrightarrow> rmatch r st k = Some res \<Longrightarrow> \<exists>st'. k st' = Some res \<and> m_grp st' \<noteq> None"
proof (induction r arbitrary: st k res)
  case (Seq a b)
  from Seq.prems have m: "rmatch a st (\<lambda>st'. rmatch b st' k) = Some res" by simp
  show ?case
  proof (cases "has_grp a")
    case True
    from Seq.IH(1) [OF True m] obtain st1 where "rmatch b st1 k = Some res" "m_grp st1 \<noteq> None"
      by blast
    from rmatch_sound [OF this(1)] this(2) obtain c t g
      where "k \<lparr>m_prev = lastp (m_prev st1) c, m_rest = t, m_grp = g\<rparr> = Some res" "g \<noteq> None"
      by blast
    then show ?thesis
      by (intro exI [of _ "\<lparr>m_prev = lastp (m_prev st1) c, m_rest = t, m_grp = g\<rparr>"]) simp
  next
    case False
    with Seq.prems have b: "has_grp b" by simp
    from rmatch_sound [OF m] obtain st1 where "rmatch b st1 k = Some res" by blast
    from Seq.IH(2) [OF b this] show ?thesis .
  qed
next
  case (Alt a b)
  then show ?case by (auto split: option.splits)
next
  case (Group r)
  from Group.prems have "rmatch r st (\<lambda>st'. k (st'\<lparr>m_grp :=
        Some (take (length (m_rest st) - length (m_rest st')) (m_rest st))\<rparr>)) = Some res"
    by simp
  from rmatch_sound [OF this] show ?case by auto
qed simp_all

lemma match_here_has_grp:
  "has_grp r \<Longrightarrow> match_here r p s = Some st \<Longrightarrow> m_grp st \<noteq> None"
  unfolding match_here_def by (drule (1) rmatch_has_grp) auto

lemma re_search_from_match:
  "re_search_from r p s = Some (s0, st) \<Longrightarrow> \<exists>p'. match_here r p' s0 = Some st \<and> suffix s0 s"
proof (induction s arbitrary: p)
  case Nil
  then show ?case by (auto split: option.splits)
next
  case (Cons x xs)
  show ?case
  proof (cases "match_here r p (x # xs)")
    case None
    with Cons.prems have "re_search_from r (Some x) xs = Some (s0, st)" by simp
    from Cons.IH [OF this] show ?thesis by (auto intro: suffix_ConsI)
  next
    case (Some st')
    with Cons.prems show ?thesis by auto
  qed
qed

lemma re_search_from_NoneI:
  "(\<And>p' t. suffix t s \<Longrightarrow> match_here r p' t = None) \<Longrightarrow> re_search_from r p s = None"
proof (induction s arbitrary: p)
  case Nil
  then show ?case by simp
next
  case (Cons x xs)
  have "match_here r p (x # xs) = None" by (rule Cons.prems) simp
  moreover have "re_search_from r (Some x) xs = None"
    by (rule Cons.IH, rule Cons.prems) (rule suffix_ConsI)
  ultimately show ?case by simp
qed

lemma extract_field_has_grp:
  "has_grp r \<Longrightarrow> \<exists>v. extract_field_with_regex s r = Inr v"
proof (cases "re_search r s")
  case None
  then show ?thesis by (simp add: extract_field_with_regex_def)
next
  case (Some m)
  assume h: "has_grp r"
  obtain s0 st where m: "m = (s0, st)" by (cases m)
  with Some re_search_from_match [of r None s s0 st] obtain p' where
    "match_here r p' s0 = Some st" by (auto simp: re_search_def)
  from match_here_has_grp [OF h this] Some m show ?thesis
    by (auto simp: extract_field_with_regex_def group1_def)
qed

section \<open>The name and the subject\<close>


lemma labelled_pat_needs:
  assumes "match_here (Seq (Alt (Str a) (Str b)) r) p s = Some st"
    and "\<And>p c t. accepts r p c t \<Longrightarrow> prefix e c \<and> NL \<in> set c"
  shows "(prefix (a @ e) s \<or> prefix (b @ e) s) \<and> NL \<in> set s"
proof -
  from match_here_sound [OF assms(1)] obtain c where "s = c @ m_rest st"
    and "accepts (Seq (Alt (Str a) (Str b)) r) p c (m_rest st)" by blast
  then obtain c1 c2 where c: "s = c1 @ c2 @ m_rest st" "c1 = a \<or> c1 = b"
    "accepts r (lastp p c1) c2 (m_rest st)" by auto
  from assms(2) [OF c(3)] have "prefix e c2" "NL \<in> set c2" by simp_all
  with c show ?thesis by (auto simp: prefix_def)
qed

lemma labelled_search_None:
  assumes acc: "\<And>p c t. accepts r p c t \<Longrightarrow> prefix e c \<and> NL \<in> set c"
    and nl: "NL \<notin> set l"
    and lab: "\<forall>i<length pre. \<not> prefix (a @ e) (drop i (pre @ l)) \<and> \<not> prefix (b @ e) (drop i (pre @ l))"
  shows "re_search (Seq (Alt (Str a) (Str b)) r) (pre @ l) = None"
  unfolding re_search_def
proof (rule re_search_from_NoneI)
  fix p' t
  assume suf: "suffix t (pre @ l)"
  show "match_here (Seq (Alt (Str a) (Str b)) r) p' t = None"
  proof (rule ccontr)
    assume "\<not> ?thesis"
    then obtain st where "match_here (Seq (Alt (Str a) (Str b)) r) p' t = Some st" by auto
    from labelled_pat_needs [OF this acc]
    have pf: "prefix (a @ e) t \<or> prefix (b @ e) t" and n: "NL \<in> set t" by simp_all
    from suf obtain u where u: "pre @ l = u @ t" by (auto simp: suffix_def)
    then have t: "t = drop (length u) (pre @ l)" by (metis append_eq_conv_conj)
    show False
    proof (cases "length u < length pre")
      case True
      with lab t pf show False by auto
    next
      case False
      with u have "suffix t l"
        by (metis append_eq_append_conv_if suffixI leI not_less)
      then have "set t \<subseteq> set l" by (rule set_mono_suffix)
      with n nl show False by auto
    qed
  qed
qed

lemma name_pat_search_None:
  assumes "NL \<notin> set l"
    and "\<forall>i<length pre. \<not> prefix ''Oficio Nro.'' (drop i (pre @ l))
            \<and> \<not> prefix ''Memorando Nro.'' (drop i (pre @ l))"
  shows "re_search name_pat (pre @ l) = None"
proof -
  have "re_search (Seq (Alt (Str ''Oficio'') (Str ''Memorando''))
      (seqs [Str '' Nro.'', Rep True Space 0 None, Group (Rep False Dot 1 None), Str [NL]]))
      (pre @ l) = None"
    by (rule labelled_search_None [where e = "'' Nro.''"]) (use assms in auto)
  then show ?thesis by (simp add: name_pat_def)
qed

lemma subject_pat_search_None:
  assumes "NL \<notin> set l"
    and "\<forall>i<length pre. \<not> prefix ''Asunto:'' (drop i (pre @ l))
            \<and> \<not> prefix ''ASUNTO:'' (drop i (pre @ l))"
  shows "re_search subject_pat (pre @ l) = None"
proof -
  have "re_search (Seq (Alt (Str ''Asunto:'') (Str ''ASUNTO:''))
      (seqs [Rep True Space 0 None, Group (Rep False Dot 1 None), Str [NL]]))
      (pre @ l) = None"
    by (rule labelled_search_None [where e = "[]"]) (use assms in auto)
  then show ?thesis by (simp add: subject_pat_def)
qed

text \<open>
  Claim C10. The patterns of the name and of the subject end in a newline. When the
  text ends in a line \<open>l\<close> without a newline and the label (\<open>Oficio Nro.\<close> or
  \<open>Memorando Nro.\<close>; \<open>Asunto:\<close> or \<open>ASUNTO:\<close>) does not occur before that line, the
  field is the sentinel \<open>No encontrado\<close>, whatever follows the label on the line.
\<close>

theorem label_on_unterminated_final_line:
  assumes "NL \<notin> set l"
  shows "((\<forall>i<length pre. \<not> prefix ''Oficio Nro.'' (drop i (pre @ l))
              \<and> \<not> prefix ''Memorando Nro.'' (drop i (pre @ l)))
            \<longrightarrow> doc_name_field (pre @ l) = Inr ''No encontrado'')
       \<and> ((\<forall>i<length pre. \<not> prefix ''Asunto:'' (drop i (pre @ l))
              \<and> \<not> prefix ''ASUNTO:'' (drop i (pre @ l)))
            \<longrightarrow> subject_field (pre @ l) = Inr ''No encontrado'')"
  using assms
  by (simp add: doc_name_field_def subject_field_def extract_field_with_regex_def
        name_pat_search_None subject_pat_search_None)

theorem label_on_unterminated_final_line_witness:
  "doc_name_field (''x'' @ [NL] @ ''Oficio Nro. 12 Asunto: algo'') = Inr ''No encontrado''
   \<and> subject_field (''x'' @ [NL] @ ''Oficio Nro. 12 Asunto: algo'') = Inr ''No encontrado''
   \<and> doc_name_field (''x'' @ [NL] @ ''Oficio Nro. 12 Asunto: algo'' @ [NL]) = Inr ''12 Asunto: algo''"
proof -
  have h: "NL \<notin> set ''Oficio Nro. 12 Asunto: algo''" by simp
  have 3: "doc_name_field (''x'' @ [NL] @ ''Oficio Nro. 12 Asunto: algo'' @ [NL]) = Inr ''12 Asunto: algo''"
    by code_simp
  from label_on_unterminated_final_line [OF h, of "''x'' @ [NL]"] 3
  show ?thesis by (simp add: less_Suc_eq)
qed

section \<open>The references and the section of the annexes\<close>

lemma take_eq_prefix: "take (length l) s = l \<longleftrightarrow> prefix l s"
  by (metis append_take_drop_id prefix_def append_eq_conv_conj)

lemma cmatch_Space: "cmatch Space = is_space"
  by (rule ext) simp

lemma until_stop_NL: "until_stop [NL] u = takeWhile (\<lambda>c. c \<noteq> NL) u"
  by (induction u) auto

lemma until_stop_prefix: "prefix (until_stop e u) u"
  by (induction u) auto

lemma until_stop_take: "take (length (until_stop e u)) u = until_stop e u"
  using until_stop_prefix [of e u] by (simp add: take_eq_prefix)

lemma rep_greedy_max:
  "k (lastp p (takeWhile (cmatch c) s)) (dropWhile (cmatch c) s) = Some r
     \<Longrightarrow> rep_greedy c 0 None p s k = Some r"
proof (induction s arbitrary: p)
  case Nil
  then show ?case by simp
next
  case (Cons x xs)
  show ?case
  proof (cases "cmatch c x")
    case True
    with Cons.prems have "k (lastp (Some x) (takeWhile (cmatch c) xs)) (dropWhile (cmatch c) xs) = Some r"
      by simp
    from Cons.IH [OF this] True show ?thesis by simp
  next
    case False
    with Cons.prems show ?thesis by simp
  qed
qed

lemma rep_lazy_until:
  assumes "\<And>p s. (k p s = None) = (\<not> (prefix e s \<or> s = [] \<or> s = [NL]))"
  shows "rep_lazy DotAll 0 None p u k
           = k (lastp p (until_stop e u)) (drop (length (until_stop e u)) u)"
proof (induction u arbitrary: p)
  case Nil
  show ?case by simp
next
  case (Cons x xs)
  show ?case
  proof (cases "prefix e (x # xs) \<or> x # xs = [NL]")
    case True
    with assms [of p "x # xs"] obtain r where "k p (x # xs) = Some r" by auto
    with True show ?thesis by auto
  next
    case False
    with assms [of p "x # xs"] have "k p (x # xs) = None" by auto
    with False Cons.IH [of "Some x"] show ?thesis by auto
  qed
qed

text \<open>The two section patterns: label, white space, lazy capture, terminator or end.\<close>

lemma section_pat_no_label:
  "\<not> prefix lbl s \<Longrightarrow>
     match_here (seqs [Str lbl, Rep True Space 0 None, Group (Rep False DotAll 0 None),
        Alt (Str e) Eol]) p s = None"
  by (simp add: match_here_def take_eq_prefix)

lemma section_pat_label:
  assumes "prefix lbl s"
  shows "\<exists>st. match_here (seqs [Str lbl, Rep True Space 0 None,
        Group (Rep False DotAll 0 None), Alt (Str e) Eol]) p s = Some st
      \<and> m_grp st = Some (until_stop e (dropWhile is_space (drop (length lbl) s)))"
proof -
  define post where "post = drop (length lbl) s"
  define u where "u = dropWhile is_space post"
  define cap where "cap = until_stop e u"
  define st1 where "st1 = \<lparr>m_prev = lastp (lastp p lbl) (takeWhile is_space post), m_rest = u,
     m_grp = None\<rparr>"
  define k3 where "k3 = (\<lambda>st'. rmatch (Alt (Str e) Eol) st' Some)"
  define k2 where "k2 = (\<lambda>p' s'. k3
     \<lparr>m_prev = p', m_rest = s', m_grp = Some (take (length u - length s') u)\<rparr>)"
  have k2None: "(k2 p' s' = None) = (\<not> (prefix e s' \<or> s' = [] \<or> s' = [NL]))" for p' s'
    by (simp add: k2_def k3_def take_eq_prefix split: option.splits)
  have lazy: "rep_lazy DotAll 0 None (m_prev st1) u k2
      = k2 (lastp (m_prev st1) cap) (drop (length cap) u)"
    unfolding cap_def by (rule rep_lazy_until [OF k2None])
  have "prefix e (drop (length cap) u) \<or> drop (length cap) u = [] \<or> drop (length cap) u = [NL]"
    unfolding cap_def by (induction u) auto
  with k2None obtain st where st: "k2 (lastp (m_prev st1) cap) (drop (length cap) u) = Some st"
    by (metis not_Some_eq)
  have len: "length u - (length u - length cap) = length cap"
    using prefix_length_le [OF until_stop_prefix [of e u]] by (simp add: cap_def)
  have tk: "take (length cap) u = cap" unfolding cap_def by (rule until_stop_take)
  from st have "k3 \<lparr>m_prev = lastp (m_prev st1) cap, m_rest = drop (length cap) u,
      m_grp = Some cap\<rparr> = Some st"
    by (simp add: k2_def len tk)
  then have grp: "m_grp st = Some cap"
    by (auto simp: k3_def split: if_splits option.splits)
  have "rmatch (Group (Rep False DotAll 0 None)) st1 k3
      = rep_lazy DotAll 0 None (m_prev st1) u k2"
    by (simp add: st1_def k2_def)
  with lazy st have inner: "rmatch (Group (Rep False DotAll 0 None)) st1 k3 = Some st"
    by simp
  have "rep_greedy Space 0 None (lastp p lbl) post
      (\<lambda>p' s'. rmatch (Group (Rep False DotAll 0 None))
          \<lparr>m_prev = p', m_rest = s', m_grp = None\<rparr> k3) = Some st"
    by (rule rep_greedy_max) (use inner in \<open>simp add: st1_def u_def cmatch_Space\<close>)
  moreover from assms have "match_here (seqs [Str lbl, Rep True Space 0 None,
        Group (Rep False DotAll 0 None), Alt (Str e) Eol]) p s
      = rep_greedy Space 0 None (lastp p lbl) post
      (\<lambda>p' s'. rmatch (Group (Rep False DotAll 0 None))
          \<lparr>m_prev = p', m_rest = s', m_grp = None\<rparr> k3)"
    unfolding k3_def match_here_def seqs.simps rmatch.simps(3) rmatch.simps(1) rmatch.simps(2)
    by (simp add: take_eq_prefix post_def lastp_def del: rmatch.simps)
  ultimately have "match_here (seqs [Str lbl, Rep True Space 0 None,
        Group (Rep False DotAll 0 None), Alt (Str e) Eol]) p s = Some st"
    by simp
  with grp show ?thesis by (simp add: cap_def u_def post_def)
qed

lemma section_pat_search:
  "map_option group1 (re_search_from (seqs [Str lbl, Rep True Space 0 None,
        Group (Rep False DotAll 0 None), Alt (Str e) Eol]) p s)
     = map_option (\<lambda>post. Some (until_stop e (dropWhile is_space post))) (after_label lbl s)"
proof (induction s arbitrary: p)
  case Nil
  show ?case
  proof (cases "lbl = []")
    case True
    with section_pat_label [of lbl "[]" e p] show ?thesis by (auto simp: group1_def)
  next
    case False
    with section_pat_no_label [of lbl "[]" e p] show ?thesis by simp
  qed
next
  case (Cons x xs)
  show ?case
  proof (cases "prefix lbl (x # xs)")
    case True
    with section_pat_label [of lbl "x # xs" e p] show ?thesis by (auto simp: group1_def)
  next
    case False
    with section_pat_no_label [of lbl "x # xs" e p] Cons.IH show ?thesis by simp
  qed
qed

lemma references_search:
  "map_option group1 (re_search references_pat s)
     = map_option (\<lambda>post. Some (takeWhile (\<lambda>c. c \<noteq> NL) (dropWhile is_space post)))
         (after_label ''Referencias:'' s)"
  unfolding re_search_def references_pat_def section_pat_search until_stop_NL ..

text \<open>
  Claim C5, amended. The field \<open>references\<close> is \<open>references_spec\<close>: the sentinel when
  the label \<open>Referencias:\<close> is absent, and also when the label is there but no piece is
  left after the empty ones are dropped; the pieces joined with \<open>", "\<close> otherwise.
\<close>

theorem references_field_spec: "references_field s = Inr (references_spec s)"
proof (cases "after_label ''Referencias:'' s")
  case None
  with references_search [of s] have "re_search references_pat s = None" by simp
  with None show ?thesis by (simp add: references_field_def references_spec_def)
next
  case (Some post)
  with references_search [of s] obtain m where "re_search references_pat s = Some m"
    "group1 m = Some (takeWhile (\<lambda>c. c \<noteq> NL) (dropWhile is_space post))" by auto
  with Some show ?thesis by (simp add: references_field_def references_spec_def Let_def)
qed

theorem references_field_spec_witness:
  "references_field (''Referencias:'' @ [NL] @ ''A - B - C'' @ [NL]) = Inr ''A, B, C''"
proof -
  have "references_spec (''Referencias:'' @ [NL] @ ''A - B - C'' @ [NL]) = ''A, B, C''"
    by code_simp
  with references_field_spec [of "''Referencias:'' @ [NL] @ ''A - B - C'' @ [NL]"]
  show ?thesis by simp
qed

text \<open>
  The claim as stated fails on the text \<open>"Referencias:\n"\<close>: the pieces are none, their
  join is the empty text, and the field is the sentinel \<open>No encontradas\<close>.
\<close>

theorem references_empty_counterexample:
  "references_field (''Referencias:'' @ [NL]) \<noteq> Inr (references_as_claimed (''Referencias:'' @ [NL]))"
  by code_simp

section \<open>Rules that never raise\<close>

lemma has_grp_pats:
  "has_grp name_pat" "has_grp date_pat" "has_grp subject_pat"
  "has_grp references_pat" "has_grp annexes_section_pat" "has_grp annex_pat"
  by (simp_all add: name_pat_def date_pat_def subject_pat_def references_pat_def
        annexes_section_pat_def annex_pat_def)

lemma re_search_has_grp:
  assumes "has_grp r" and "re_search r s = Some m"
  shows "\<exists>g. group1 m = Some g"
proof -
  obtain s0 st where m: "m = (s0, st)" by (cases m)
  with assms(2) re_search_from_match [of r None s s0 st] obtain p' where
    "match_here r p' s0 = Some st" by (auto simp: re_search_def)
  from match_here_has_grp [OF assms(1) this] m show ?thesis
    by (auto simp: group1_def)
qed

lemma doc_name_field_total: "\<exists>v. doc_name_field s = Inr v"
  unfolding doc_name_field_def by (rule extract_field_has_grp) (rule has_grp_pats)

lemma subject_field_total: "\<exists>v. subject_field s = Inr v"
  unfolding subject_field_def by (rule extract_field_has_grp) (rule has_grp_pats)

lemma references_field_total: "\<exists>v. references_field s = Inr v"
proof (cases "re_search references_pat s")
  case None
  then show ?thesis by (simp add: references_field_def)
next
  case (Some m)
  with re_search_has_grp [OF has_grp_pats(4) Some] show ?thesis
    by (auto simp: references_field_def)
qed

lemma annexes_field_total: "\<exists>v. annexes_field s = Inr v"
proof (cases "re_search annexes_section_pat s")
  case None
  then show ?thesis by (simp add: annexes_field_def)
next
  case (Some m)
  with re_search_has_grp [OF has_grp_pats(5) Some] show ?thesis
    by (auto simp: annexes_field_def)
qed



lemma make_rows_no_annex:
  "list_all (\<lambda>r. Anexo r = ''No encontrado'') (make_rows n d sj rf [])"
  by (simp add: make_rows_eq)

section \<open>The date\<close>

lemma digit_is_word: "is_digit x \<Longrightarrow> is_word x"
  by (auto simp: is_digit_def is_word_def Let_def)

lemma space_not_word: "is_space x \<Longrightarrow> \<not> is_word x"
  by (auto simp: is_space_def is_word_def Let_def)

lemma space_not_digit: "is_space x \<Longrightarrow> \<not> is_digit x"
  using digit_is_word space_not_word by blast

lemma digit_lower: "is_digit x \<Longrightarrow> lower_char x = x"
  by (auto simp: is_digit_def lower_char_def Let_def)

lemma strip_id: "s \<noteq> [] \<Longrightarrow> \<not> is_space (hd s) \<Longrightarrow> \<not> is_space (last s) \<Longrightarrow> strip s = s"
proof -
  assume a: "s \<noteq> []" "\<not> is_space (hd s)" "\<not> is_space (last s)"
  then have 1: "dropWhile is_space s = s" by (simp add: dropWhile_eq_self_iff)
  from a have "dropWhile is_space (rev s) = rev s"
    by (simp add: dropWhile_eq_self_iff hd_rev)
  with 1 show ?thesis by (simp add: strip_def)
qed

lemma takeWhile_run:
  "list_all P xs \<Longrightarrow> t = [] \<or> \<not> P (hd t) \<Longrightarrow> takeWhile P (xs @ t) = xs"
  by (induction xs) (auto simp: takeWhile_eq_Nil_iff neq_Nil_conv)

lemma dropWhile_run:
  "list_all P xs \<Longrightarrow> t = [] \<or> \<not> P (hd t) \<Longrightarrow> dropWhile P (xs @ t) = t"
  by (induction xs) (auto simp: dropWhile_eq_self_iff neq_Nil_conv)

lemma rep_greedy_plus_max:
  assumes "xs \<noteq> []" "list_all (cmatch c) xs" "t = [] \<or> \<not> cmatch c (hd t)"
    "k (Some (last xs)) t = Some r"
  shows "rep_greedy c (Suc 0) None p (xs @ t) k = Some r"
proof -
  from assms(1) obtain x xs' where xs: "xs = x # xs'" by (cases xs) auto
  with assms(2) have x: "cmatch c x" and xs': "list_all (cmatch c) xs'" by simp_all
  have "k (lastp (Some x) (takeWhile (cmatch c) (xs' @ t))) (dropWhile (cmatch c) (xs' @ t)) = Some r"
    using assms(4) xs by (auto simp: takeWhile_run [OF xs' assms(3)] dropWhile_run [OF xs' assms(3)] lastp_def)
  from rep_greedy_max [where k = k and p = "Some x" and c = c and s = "xs' @ t" and r = r, OF this]
    x xs show ?thesis by simp
qed

lemma rep_greedy_plus_fail:
  "s = [] \<or> \<not> cmatch c (hd s) \<Longrightarrow> rep_greedy c (Suc 0) None p s k = None"
  by (cases s) auto

text \<open>\<open>re.findall\<close>, one match at a time.\<close>

lemma re_findall_from_hit:
  assumes "match_here r p s = Some st" and "m_rest st \<noteq> s"
  shows "re_findall_from r p s = (s, st) # re_findall_from r (m_prev st) (m_rest st)"
proof -
  from assms(1) have "re_search_from r p s = Some (s, st)" by (cases s) simp_all
  with assms(2) show ?thesis by (subst re_findall_from.simps) simp
qed

lemma re_findall_from_skip:
  assumes "match_here r p (x # t) = None"
  shows "re_findall_from r p (x # t) = re_findall_from r (Some x) t"
proof -
  from assms have "re_search_from r p (x # t) = re_search_from r (Some x) t" by simp
  then show ?thesis
    by (simp only: re_findall_from.simps [of r p "x # t"] re_findall_from.simps [of r "Some x" t])
qed

lemma re_findall_from_end:
  "match_here r p [] = None \<Longrightarrow> re_findall_from r p [] = []"
  by (subst re_findall_from.simps) simp

lemma parts_match_here:
  "match_here date_parts_pat p s =
     (case rep_greedy Digit (Suc 0) None p s (\<lambda>p' s'. Some \<lparr>m_prev = p', m_rest = s', m_grp = None\<rparr>) of
        Some r \<Rightarrow> Some r
      | None \<Rightarrow> rep_greedy Wordc (Suc 0) None p s
          (\<lambda>p' s'. Some \<lparr>m_prev = p', m_rest = s', m_grp = None\<rparr>))"
  by (simp add: match_here_def date_parts_pat_def cong: option.case_cong)

lemma parts_digits:
  assumes "xs \<noteq> []" "list_all is_digit xs" "t = [] \<or> \<not> is_digit (hd t)"
  shows "parts_from p (xs @ t) = xs # parts_from (Some (last xs)) t"
proof -
  have "rep_greedy Digit (Suc 0) None p (xs @ t)
      (\<lambda>p' s'. Some \<lparr>m_prev = p', m_rest = s', m_grp = None\<rparr>)
      = Some \<lparr>m_prev = Some (last xs), m_rest = t, m_grp = None\<rparr>"
    by (rule rep_greedy_plus_max) (use assms in \<open>simp_all add: list_all_iff\<close>)
  then have "match_here date_parts_pat p (xs @ t)
      = Some \<lparr>m_prev = Some (last xs), m_rest = t, m_grp = None\<rparr>"
    by (simp add: parts_match_here)
  from re_findall_from_hit [OF this] assms(1) show ?thesis
    by (simp add: parts_from_def group0_def)
qed

lemma parts_word:
  assumes "xs \<noteq> []" "list_all is_word xs" "\<not> is_digit (hd xs)" "t = [] \<or> \<not> is_word (hd t)"
  shows "parts_from p (xs @ t) = xs # parts_from (Some (last xs)) t"
proof -
  have "rep_greedy Digit (Suc 0) None p (xs @ t)
      (\<lambda>p' s'. Some \<lparr>m_prev = p', m_rest = s', m_grp = None\<rparr>) = None"
    by (rule rep_greedy_plus_fail) (use assms in simp)
  moreover have "rep_greedy Wordc (Suc 0) None p (xs @ t)
      (\<lambda>p' s'. Some \<lparr>m_prev = p', m_rest = s', m_grp = None\<rparr>)
      = Some \<lparr>m_prev = Some (last xs), m_rest = t, m_grp = None\<rparr>"
    by (rule rep_greedy_plus_max) (use assms in \<open>simp_all add: list_all_iff\<close>)
  ultimately have "match_here date_parts_pat p (xs @ t)
      = Some \<lparr>m_prev = Some (last xs), m_rest = t, m_grp = None\<rparr>"
    by (simp add: parts_match_here)
  from re_findall_from_hit [OF this] assms(1) show ?thesis
    by (simp add: parts_from_def group0_def)
qed

lemma parts_skip:
  assumes "list_all is_space ws" "t \<noteq> []"
  shows "parts_from p (ws @ t) = parts_from (lastp p ws) t"
  using assms(1)
proof (induction ws arbitrary: p)
  case Nil
  show ?case by simp
next
  case (Cons x ws)
  then have x: "\<not> is_word x" "\<not> is_digit x" by (simp_all add: space_not_word space_not_digit)
  then have "match_here date_parts_pat p (x # ws @ t) = None"
    by (simp add: parts_match_here)
  from re_findall_from_skip [OF this] have "parts_from p (x # ws @ t) = parts_from (Some x) (ws @ t)"
    by (simp add: parts_from_def)
  with Cons show ?case by simp
qed

lemma parts_end: "parts_from p [] = []"
  by (simp add: parts_from_def re_findall_from_end parts_match_here)

lemma cmatch_funs: "cmatch Space = is_space" "cmatch Digit = is_digit" "cmatch Wordc = is_word"
  by (rule ext, simp)+

lemma date_match_shape:
  assumes "re_search date_pat s = Some m"
  shows "\<exists>d w1 w2 mon w3 w4 y. group0 m = d @ w1 @ ''de'' @ w2 @ mon @ w3 @ ''de'' @ w4 @ y
      \<and> group1 m = Some (group0 m) \<and> date_shape d w1 w2 mon w3 w4 y"
proof -
  obtain s0 st where m: "m = (s0, st)" by (cases m)
  with assms re_search_from_match [of date_pat None s s0 st] obtain p' where
    mh: "match_here date_pat p' s0 = Some st" by (auto simp: re_search_def)
  let ?inner = "seqs [Rep True Digit 1 (Some 2), Rep True Space 1 None, Str ''de'',
     Rep True Space 1 None, Rep True Wordc 1 None, Rep True Space 1 None, Str ''de'',
     Rep True Space 1 None, Rep True Digit 4 (Some 4)]"
  from mh have "match_here (Group ?inner) p' s0 = Some st" by (simp only: date_pat_def)
  from match_here_Group [OF this] obtain c where c: "s0 = c @ m_rest st"
    "accepts ?inner p' c (m_rest st)" "m_grp st = Some c" by blast
  from c(1) m have g0: "group0 m = c" by (simp add: group0_def)
  from c(3) m have g1: "group1 m = Some c" by (simp add: group1_def)
  have seqRep: "\<exists>c1 c2. c = c1 @ c2 \<and> list_all (cmatch cl) c1 \<and> in_bounds lo hi (length c1)
      \<and> accepts r (lastp p c1) c2 t" if "accepts (Seq (Rep g cl lo hi) r) p c t"
    for g cl lo hi r p c t using that by auto
  have seqStr: "\<exists>c2. c = l @ c2 \<and> accepts r (lastp p l) c2 t" if "accepts (Seq (Str l) r) p c t"
    for l r p c t using that by auto
  from c(2) have "accepts (Seq (Rep True Digit 1 (Some 2)) (seqs [Rep True Space 1 None, Str ''de'',
     Rep True Space 1 None, Rep True Wordc 1 None, Rep True Space 1 None, Str ''de'',
     Rep True Space 1 None, Rep True Digit 4 (Some 4)])) p' c (m_rest st)" by (simp only: seqs.simps)
  from seqRep [OF this] obtain d c1 where 1: "c = d @ c1" "list_all is_digit d"
    "in_bounds 1 (Some 2) (length d)"
    and "accepts (Seq (Rep True Space 1 None) (seqs [Str ''de'',
     Rep True Space 1 None, Rep True Wordc 1 None, Rep True Space 1 None, Str ''de'',
     Rep True Space 1 None, Rep True Digit 4 (Some 4)])) (lastp p' d) c1 (m_rest st)"
    by (auto simp only: cmatch_funs seqs.simps)
  from seqRep [OF this(4)] obtain w1 c2 where 2: "c1 = w1 @ c2" "list_all is_space w1"
    "in_bounds 1 None (length w1)"
    and "accepts (Seq (Str ''de'') (seqs [
     Rep True Space 1 None, Rep True Wordc 1 None, Rep True Space 1 None, Str ''de'',
     Rep True Space 1 None, Rep True Digit 4 (Some 4)])) (lastp (lastp p' d) w1) c2 (m_rest st)"
    by (auto simp only: cmatch_funs seqs.simps)
  from seqStr [OF this(4)] obtain c3 where 3: "c2 = ''de'' @ c3"
    and "accepts (Seq (Rep True Space 1 None) (seqs [Rep True Wordc 1 None,
     Rep True Space 1 None, Str ''de'', Rep True Space 1 None, Rep True Digit 4 (Some 4)]))
     (lastp (lastp (lastp p' d) w1) ''de'') c3 (m_rest st)"
    by (auto simp only: seqs.simps)
  from seqRep [OF this(2)] obtain w2 c4 where 4: "c3 = w2 @ c4" "list_all is_space w2"
    "in_bounds 1 None (length w2)"
    and "accepts (Seq (Rep True Wordc 1 None) (seqs [
     Rep True Space 1 None, Str ''de'', Rep True Space 1 None, Rep True Digit 4 (Some 4)]))
     (lastp (lastp (lastp (lastp p' d) w1) ''de'') w2) c4 (m_rest st)"
    by (auto simp only: cmatch_funs seqs.simps)
  from seqRep [OF this(4)] obtain mon c5 where 5: "c4 = mon @ c5" "list_all is_word mon"
    "in_bounds 1 None (length mon)"
    and "accepts (Seq (Rep True Space 1 None) (seqs [Str ''de'', Rep True Space 1 None,
     Rep True Digit 4 (Some 4)]))
     (lastp (lastp (lastp (lastp (lastp p' d) w1) ''de'') w2) mon) c5 (m_rest st)"
    by (auto simp only: cmatch_funs seqs.simps)
  from seqRep [OF this(4)] obtain w3 c6 where 6: "c5 = w3 @ c6" "list_all is_space w3"
    "in_bounds 1 None (length w3)"
    and "accepts (Seq (Str ''de'') (seqs [Rep True Space 1 None, Rep True Digit 4 (Some 4)]))
     (lastp (lastp (lastp (lastp (lastp (lastp p' d) w1) ''de'') w2) mon) w3) c6 (m_rest st)"
    by (auto simp only: cmatch_funs seqs.simps)
  from seqStr [OF this(4)] obtain c7 where 7: "c6 = ''de'' @ c7"
    and "accepts (Seq (Rep True Space 1 None) (Rep True Digit 4 (Some 4)))
     (lastp (lastp (lastp (lastp (lastp (lastp (lastp p' d) w1) ''de'') w2) mon) w3) ''de'')
     c7 (m_rest st)"
    by (auto simp only: seqs.simps)
  from seqRep [OF this(2)] obtain w4 y where 8: "c7 = w4 @ y" "list_all is_space w4"
    "in_bounds 1 None (length w4)" "list_all is_digit y" "in_bounds 4 (Some 4) (length y)"
    by (auto simp only: cmatch_funs seqs.simps accepts.simps(2))
  have shape: "date_shape d w1 w2 mon w3 w4 y"
    using 1 2 4 5 6 8 by (auto simp: date_shape_def in_bounds_def)
  have cdef: "c = d @ w1 @ ''de'' @ w2 @ mon @ w3 @ ''de'' @ w4 @ y"
    by (simp only: 1(1) 2(1) 3 4(1) 5(1) 6(1) 7 8(1))
  show ?thesis
    unfolding g0 g1 cdef
    by (intro exI [of _ d] exI [of _ w1] exI [of _ w2] exI [of _ mon] exI [of _ w3]
          exI [of _ w4] exI [of _ y] conjI refl shape)
qed

lemma hd_space_run:
  assumes "ws \<noteq> []" "list_all is_space ws"
  shows "\<not> is_word (hd (ws @ t))" "\<not> is_digit (hd (ws @ t))" "ws @ t \<noteq> []"
  using assms by (cases ws; simp add: space_not_word space_not_digit)+

lemma de_word: "list_all is_word ''de''" "\<not> is_digit (hd ''de'')" "\<not> is_space (hd ''de'')"
  by (simp_all add: is_word_def is_digit_def is_space_def)

lemma parts_de:
  assumes "ws \<noteq> []" "list_all is_space ws"
  shows "parts_from P (''de'' @ ws @ t) = ''de'' # parts_from (Some CHR ''e'') (ws @ t)"
  using parts_word [of "''de''" "ws @ t" P] de_word hd_space_run [OF assms, of t] by simp

lemma parts_skip':
  assumes "ws \<noteq> []" "list_all is_space ws" "t \<noteq> []"
  shows "parts_from P (ws @ t) = parts_from (Some (last ws)) t"
  using parts_skip [OF assms(2,3), of P] assms(1) by (simp add: lastp_def)

lemma date_parts_front:
  assumes "date_shape d w1 w2 mon w3 w4 y" and "R \<noteq> []"
  shows "parts_from P (d @ w1 @ ''de'' @ w2 @ R)
           = d # ''de'' # parts_from (Some (last w2)) R"
proof -
  from assms(1) have d: "d \<noteq> []" "list_all is_digit d"
    and w1: "w1 \<noteq> []" "list_all is_space w1" and w2: "w2 \<noteq> []" "list_all is_space w2"
    by (simp_all add: date_shape_def)
  have "parts_from P (d @ w1 @ ''de'' @ w2 @ R)
      = d # parts_from (Some (last d)) (w1 @ ''de'' @ w2 @ R)"
    by (rule parts_digits [OF d]) (use hd_space_run [OF w1] in simp)
  also have "parts_from (Some (last d)) (w1 @ ''de'' @ w2 @ R)
      = parts_from (Some (last w1)) (''de'' @ w2 @ R)"
    by (rule parts_skip' [OF w1]) simp
  also have "\<dots> = ''de'' # parts_from (Some CHR ''e'') (w2 @ R)"
    by (rule parts_de [OF w2])
  also have "parts_from (Some CHR ''e'') (w2 @ R) = parts_from (Some (last w2)) R"
    by (rule parts_skip' [OF w2 assms(2)])
  finally show ?thesis .
qed

lemma date_parts_letters:
  assumes "date_shape d w1 w2 mon w3 w4 y" and "\<not> is_digit (hd mon)"
  shows "parts_from P (d @ w1 @ ''de'' @ w2 @ mon @ w3 @ ''de'' @ w4 @ y)
           = [d, ''de'', mon, ''de'', y]"
proof -
  from assms(1) have mon: "mon \<noteq> []" "list_all is_word mon"
    and w3: "w3 \<noteq> []" "list_all is_space w3" and w4: "w4 \<noteq> []" "list_all is_space w4"
    and y: "y \<noteq> []" "list_all is_digit y"
    by (auto simp: date_shape_def)
  have "parts_from Q (y @ []) = y # parts_from (Some (last y)) []" for Q
    by (rule parts_digits [OF y]) simp
  then have s9: "parts_from Q y = [y]" for Q by (simp add: parts_end)
  have s8: "parts_from Q (w4 @ y) = [y]" for Q
    using parts_skip' [OF w4 y(1), of Q] s9 by simp
  have s7: "parts_from Q (''de'' @ w4 @ y) = [''de'', y]" for Q
    using parts_de [OF w4, of Q y] s8 by simp
  have s6: "parts_from Q (w3 @ ''de'' @ w4 @ y) = [''de'', y]" for Q
    using parts_skip' [OF w3, of "''de'' @ w4 @ y" Q] s7 by simp
  have s5: "parts_from Q (mon @ w3 @ ''de'' @ w4 @ y) = [mon, ''de'', y]" for Q
    using parts_word [OF mon assms(2), of "w3 @ ''de'' @ w4 @ y" Q] hd_space_run [OF w3] s6
    by simp
  have "mon @ w3 @ ''de'' @ w4 @ y \<noteq> []" using mon by simp
  from date_parts_front [OF assms(1) this] s5 show ?thesis by simp
qed

lemma date_parts_digit_month:
  assumes "date_shape d w1 w2 mon w3 w4 y" and "is_digit (hd mon)"
  shows "\<exists>rest. parts_from P (d @ w1 @ ''de'' @ w2 @ mon @ w3 @ ''de'' @ w4 @ y)
           = d # ''de'' # takeWhile is_digit mon # rest"
proof -
  from assms(1) have mon: "mon \<noteq> []" and w3: "w3 \<noteq> []" "list_all is_space w3"
    by (auto simp: date_shape_def)
  let ?T = "w3 @ ''de'' @ w4 @ y"
  let ?md = "takeWhile is_digit mon" and ?mr = "dropWhile is_digit mon"
  from mon assms(2) have md: "?md \<noteq> []" by (cases mon) simp_all
  have all: "list_all is_digit ?md" by (simp add: list_all_iff) (meson set_takeWhileD)
  have "\<not> is_digit (hd (?mr @ ?T))"
  proof (cases "?mr = []")
    case True
    show ?thesis unfolding True append_Nil by (rule hd_space_run [OF w3])
  next
    case False
    then show ?thesis using hd_dropWhile [of is_digit mon] by simp
  qed
  then have "parts_from Q (?md @ ?mr @ ?T) = ?md # parts_from (Some (last ?md)) (?mr @ ?T)" for Q
    by (intro parts_digits [OF md all]) simp
  then have s5: "parts_from Q (mon @ ?T) = ?md # parts_from (Some (last ?md)) (?mr @ ?T)" for Q
    by (metis append.assoc takeWhile_dropWhile_id)
  have "mon @ ?T \<noteq> []" using mon by simp
  from date_parts_front [OF assms(1) this] s5 show ?thesis by simp
qed

lemma months_key:
  "months k = Some v \<Longrightarrow> k \<noteq> [] \<and> \<not> is_digit (hd k) \<and> length v = 2 \<and> list_all is_digit v"
  by (auto simp: months_def is_digit_def split: if_splits)

lemma lower_digits: "list_all is_digit xs \<Longrightarrow> lower xs = xs"
  by (induction xs) (simp_all add: lower_def digit_lower)

lemma months_digits: "xs \<noteq> [] \<Longrightarrow> is_digit (hd xs) \<Longrightarrow> months (lower xs) = None"
proof (rule ccontr)
  assume a: "xs \<noteq> []" "is_digit (hd xs)" and "months (lower xs) \<noteq> None"
  then obtain v where "months (lower xs) = Some v" by auto
  from months_key [OF this] a(1) have "\<not> is_digit (lower_char (hd xs))"
    by (cases xs) (simp_all add: lower_def)
  with a(2) show False by (simp add: digit_lower)
qed

lemma shape_day:
  assumes "date_shape d w1 w2 mon w3 w4 y"
  shows "day_of (d @ w1 @ ''de'' @ w2 @ mon @ w3 @ ''de'' @ w4 @ y) = d"
proof -
  from assms have d: "list_all is_digit d" and w1: "w1 \<noteq> []" "list_all is_space w1"
    by (simp_all add: date_shape_def)
  show ?thesis unfolding day_of_def
    by (rule takeWhile_run [OF d]) (use hd_space_run [OF w1] in simp)
qed

lemma shape_month:
  assumes "date_shape d w1 w2 mon w3 w4 y"
  shows "month_of (d @ w1 @ ''de'' @ w2 @ mon @ w3 @ ''de'' @ w4 @ y) = mon"
proof -
  from assms have d: "list_all is_digit d" and w1: "w1 \<noteq> []" "list_all is_space w1"
    and w2: "w2 \<noteq> []" "list_all is_space w2" and mon: "mon \<noteq> []" "list_all is_word mon"
    and w3: "w3 \<noteq> []" "list_all is_space w3"
    by (simp_all add: date_shape_def)
  let ?T = "w3 @ ''de'' @ w4 @ y"
  have 1: "dropWhile is_digit (d @ w1 @ ''de'' @ w2 @ mon @ ?T) = w1 @ ''de'' @ w2 @ mon @ ?T"
    by (rule dropWhile_run [OF d]) (use hd_space_run [OF w1] in simp)
  have 2: "dropWhile is_space (w1 @ ''de'' @ w2 @ mon @ ?T) = ''de'' @ w2 @ mon @ ?T"
    by (rule dropWhile_run [OF w1(2)]) (use de_word in simp)
  have 3: "drop 2 (''de'' @ w2 @ mon @ ?T) = w2 @ mon @ ?T" by simp
  from mon have "\<not> is_space (hd (mon @ ?T))"
    by (cases mon) (auto simp: space_not_word)
  then have 4: "dropWhile is_space (w2 @ mon @ ?T) = mon @ ?T"
    by (intro dropWhile_run [OF w2(2)]) simp
  have 5: "takeWhile is_word (mon @ ?T) = mon"
    by (rule takeWhile_run [OF mon(2)]) (use hd_space_run [OF w3] in simp)
  show ?thesis unfolding month_of_def 1 2 3 4 5 ..
qed

lemma shape_year:
  assumes "date_shape d w1 w2 mon w3 w4 y"
  shows "year_of (d @ w1 @ ''de'' @ w2 @ mon @ w3 @ ''de'' @ w4 @ y) = y"
proof -
  from assms have y: "length y = 4" by (simp add: date_shape_def)
  define pre where "pre = d @ w1 @ ''de'' @ w2 @ mon @ w3 @ ''de'' @ w4"
  have c: "d @ w1 @ ''de'' @ w2 @ mon @ w3 @ ''de'' @ w4 @ y = pre @ y"
    by (simp add: pre_def)
  show ?thesis unfolding c year_of_def using y by simp
qed

lemma shape_strip:
  assumes "date_shape d w1 w2 mon w3 w4 y"
  shows "strip (d @ w1 @ ''de'' @ w2 @ mon @ w3 @ ''de'' @ w4 @ y)
           = d @ w1 @ ''de'' @ w2 @ mon @ w3 @ ''de'' @ w4 @ y"
    and "d @ w1 @ ''de'' @ w2 @ mon @ w3 @ ''de'' @ w4 @ y \<noteq> ''No encontrado''"
proof -
  from assms have d: "d \<noteq> []" "list_all is_digit d" and y: "y \<noteq> []" "list_all is_digit y"
    by (auto simp: date_shape_def)
  let ?c = "d @ w1 @ ''de'' @ w2 @ mon @ w3 @ ''de'' @ w4 @ y"
  from d have h: "is_digit (hd ?c)" by (cases d) simp_all
  from y have l: "is_digit (last ?c)" by (simp add: list_all_iff)
  from h l show "strip ?c = ?c"
    by (intro strip_id) (use d space_not_digit in auto)
  have "\<not> is_digit (hd ''No encontrado'')" by (simp add: is_digit_def)
  with h show "?c \<noteq> ''No encontrado''" by metis
qed

text \<open>The date field in terms of the first match.\<close>

lemma date_field_eq:
  assumes "re_search date_pat s = Some m"
  shows "date_field s =
     (if is_digit (hd (month_of (group0 m)))
      then Inl (KeyError (takeWhile is_digit (month_of (group0 m))))
      else case months (lower (month_of (group0 m))) of
             None \<Rightarrow> Inl (KeyError (lower (month_of (group0 m))))
           | Some mm \<Rightarrow> Inr (day_of (group0 m) @ ''-'' @ mm @ ''-'' @ year_of (group0 m)))"
proof -
  from date_match_shape [OF assms] obtain d w1 w2 mon w3 w4 y where
    g0: "group0 m = d @ w1 @ ''de'' @ w2 @ mon @ w3 @ ''de'' @ w4 @ y"
    and g1: "group1 m = Some (group0 m)" and shape: "date_shape d w1 w2 mon w3 w4 y" by blast
  let ?c = "d @ w1 @ ''de'' @ w2 @ mon @ w3 @ ''de'' @ w4 @ y"
  have ef: "extract_field_with_regex s date_pat = Inr ?c"
    using assms g1 g0 shape_strip(1) [OF shape]
    by (simp add: extract_field_with_regex_def)
  have parts: "re_findall_whole date_parts_pat x = parts_from None x" for x
    by (simp add: re_findall_whole_def parts_from_def)
  have df: "date_field s =
     (let date_parts = parts_from None ?c in
             case py_index date_parts 0 of
               Inl e \<Rightarrow> Inl e
             | Inr day \<Rightarrow>
                 (case py_index date_parts 2 of
                    Inl e \<Rightarrow> Inl e
                  | Inr month \<Rightarrow>
                      (case months (lower month) of
                         None \<Rightarrow> Inl (KeyError (lower month))
                       | Some mm \<Rightarrow>
                           (case py_index date_parts 4 of
                              Inl e \<Rightarrow> Inl e
                            | Inr year \<Rightarrow> Inr (day @ ''-'' @ mm @ ''-'' @ year)))))"
    unfolding date_field_def ef using shape_strip(2) [OF shape] by (simp add: parts)
  from shape have mon: "mon \<noteq> []" by (simp add: date_shape_def)
  show ?thesis
  proof (cases "is_digit (hd mon)")
    case True
    from date_parts_digit_month [OF shape True, of None] obtain rest where
      "parts_from None ?c = d # ''de'' # takeWhile is_digit mon # rest" by blast
    moreover from mon True have "takeWhile is_digit mon \<noteq> []" "is_digit (hd (takeWhile is_digit mon))"
      by (cases mon; simp)+
    moreover have "lower (takeWhile is_digit mon) = takeWhile is_digit mon"
      by (rule lower_digits) (simp add: list_all_iff, meson set_takeWhileD)
    ultimately show ?thesis
      unfolding df g0 shape_month [OF shape] using True months_digits [of "takeWhile is_digit mon"]
      by (simp add: py_index_def)
  next
    case False
    from date_parts_letters [OF shape False, of None]
    have "parts_from None ?c = [d, ''de'', mon, ''de'', y]" .
    then show ?thesis
      unfolding df g0 shape_month [OF shape] shape_day [OF shape] shape_year [OF shape]
      using False by (simp add: py_index_def split: option.splits)
  qed
qed

lemma date_match_parts:
  assumes "re_search date_pat s = Some m"
  shows "day_of (group0 m) \<noteq> [] \<and> length (day_of (group0 m)) \<le> 2
     \<and> list_all is_digit (day_of (group0 m))
     \<and> length (year_of (group0 m)) = 4 \<and> list_all is_digit (year_of (group0 m))
     \<and> month_of (group0 m) \<noteq> []"
proof -
  from date_match_shape [OF assms] obtain d w1 w2 mon w3 w4 y where
    g0: "group0 m = d @ w1 @ ''de'' @ w2 @ mon @ w3 @ ''de'' @ w4 @ y"
    and shape: "date_shape d w1 w2 mon w3 w4 y" by blast
  show ?thesis
    unfolding g0 shape_day [OF shape] shape_year [OF shape] shape_month [OF shape]
    using shape by (simp add: date_shape_def)
qed

lemma known_month_letters:
  assumes "months (lower mon) = Some mm"
  shows "\<not> is_digit (hd mon)"
proof
  assume d: "is_digit (hd mon)"
  from months_key [OF assms] have "mon \<noteq> []" by (auto simp: lower_def)
  from months_digits [OF this d] assms show False by simp
qed

text \<open>
  Claim C2, amended. Without a match of the date pattern the date is the sentinel
  \<open>No encontrada\<close>. When the first match names a month of the table (in any case of
  letters), the date is the day as it is written, a dash, the two digits of the month,
  a dash and the year: the day has one or two digits and is not padded, the year has
  four digits.
\<close>

theorem date_field_reassembled:
  "(re_search date_pat s = None \<longrightarrow> date_field s = Inr ''No encontrada'')
   \<and> (\<forall>m mm. re_search date_pat s = Some m \<and> months (lower (month_of (group0 m))) = Some mm
        \<longrightarrow> date_field s = Inr (day_of (group0 m) @ ''-'' @ mm @ ''-'' @ year_of (group0 m))
          \<and> day_of (group0 m) \<noteq> [] \<and> length (day_of (group0 m)) \<le> 2
          \<and> list_all is_digit (day_of (group0 m))
          \<and> length mm = 2 \<and> list_all is_digit mm
          \<and> length (year_of (group0 m)) = 4 \<and> list_all is_digit (year_of (group0 m)))"
proof (rule conjI, goal_cases)
  case 1
  show ?case
    by (simp add: date_field_def extract_field_with_regex_def)
next
  case 2
  show ?case
  proof (intro allI impI)
  fix m mm
  assume a: "re_search date_pat s = Some m \<and> months (lower (month_of (group0 m))) = Some mm"
  then have m: "re_search date_pat s = Some m"
    and mm: "months (lower (month_of (group0 m))) = Some mm" by simp_all
  from known_month_letters [OF mm] date_field_eq [OF m] mm
  have df: "date_field s = Inr (day_of (group0 m) @ ''-'' @ mm @ ''-'' @ year_of (group0 m))"
    by simp
  from df date_match_parts [OF m] months_key [OF mm]
  show "date_field s = Inr (day_of (group0 m) @ ''-'' @ mm @ ''-'' @ year_of (group0 m))
          \<and> day_of (group0 m) \<noteq> [] \<and> length (day_of (group0 m)) \<le> 2
          \<and> list_all is_digit (day_of (group0 m))
          \<and> length mm = 2 \<and> list_all is_digit mm
          \<and> length (year_of (group0 m)) = 4 \<and> list_all is_digit (year_of (group0 m))"
    by simp
  qed
qed

theorem date_field_reassembled_witness:
  "date_field (''Quito, 15 de marzo de 2021'' @ [NL]) = Inr ''15-03-2021''
   \<and> date_field ''Quito'' = Inr ''No encontrada''"
proof -
  let ?s = "''Quito, 15 de marzo de 2021'' @ [NL]"
  let ?m = "(''15 de marzo de 2021'' @ [NL],
     \<lparr>m_prev = Some CHR ''1'', m_rest = [NL], m_grp = Some ''15 de marzo de 2021''\<rparr>)"
  have m: "re_search date_pat ?s = Some ?m" by code_simp
  have mm: "months (lower (month_of (group0 ?m))) = Some ''03''" by code_simp
  have v: "day_of (group0 ?m) @ ''-'' @ ''03'' @ ''-'' @ year_of (group0 ?m) = ''15-03-2021''"
    by code_simp
  have n: "re_search date_pat ''Quito'' = None" by code_simp
  from date_field_reassembled [of ?s, THEN conjunct2, rule_format, of ?m "''03''"] m mm
  have "date_field ?s = Inr (day_of (group0 ?m) @ ''-'' @ ''03'' @ ''-'' @ year_of (group0 ?m))"
    by blast
  then have 1: "date_field ?s = Inr ''15-03-2021''" by (simp only: v)
  from date_field_reassembled [of "''Quito''", THEN conjunct1] n
  have 2: "date_field ''Quito'' = Inr ''No encontrada''" by blast
  from 1 2 show ?thesis by (rule conjI)
qed

text \<open>
  The claim as stated fails for a day of one digit: \<open>5 de marzo de 2021\<close> gives
  \<open>5-03-2021\<close>, which is not of the form \<open>DD-MM-YYYY\<close>.
\<close>

theorem single_digit_day_counterexample:
  "date_field ''5 de marzo de 2021'' = Inr ''5-03-2021'' \<and> \<not> dd_mm_yyyy ''5-03-2021''"
  by code_simp

lemma date_pat_empty: "re_search date_pat [] = None"
  by (simp add: re_search_def match_here_def date_pat_def)

lemma process_files_abort:
  assumes "f \<in> set names" "endswith (lower f) ''.pdf''" "process_pdf fs (path_join d f) = Inl e"
  shows "\<exists>e'. process_files fs d data names = Inl e'"
  using assms(1)
proof (induction names arbitrary: data)
  case Nil
  then show ?case by simp
next
  case (Cons x xs)
  show ?case
  proof (cases "x = f")
    case True
    with assms(2,3) show ?thesis by simp
  next
    case False
    with Cons.prems have "f \<in> set xs" by simp
    from Cons.IH [OF this] show ?thesis by (auto split: sum.splits)
  qed
qed

text \<open>
  Claim C4. When the first match of the date pattern has a month word that is not a
  key of \<open>months\<close> (in lower case), the lookup raises \<open>KeyError\<close>: the date is not a
  sentinel, the rows of the text are not returned, \<open>process_pdf\<close> raises the same
  error for every file with that text, and \<open>process_directory\<close> and the run of the
  module end in an error when such a PDF file is listed.
\<close>

theorem unknown_month_raises:
  assumes "re_search date_pat s = Some m" and "months (lower (month_of (group0 m))) = None"
  shows "\<exists>k. date_field s = Inl (KeyError k) \<and> extract_rows s = Inl (KeyError k)
     \<and> (\<forall>fs d f. extract_text_from_pdf fs (path_join d f) = s
          \<longrightarrow> process_pdf fs (path_join d f) = Inl (KeyError k)
            \<and> (endswith (lower f) ''.pdf'' \<and> f \<in> set (fs_listdir fs d)
                \<longrightarrow> (\<exists>e. process_directory fs d = Inl e)
                  \<and> (\<forall>env. env ''SERVER_ROUTE'' = Some d \<longrightarrow> (\<exists>e. run_module env fs = Inl e))))"
proof -
  from date_field_eq [OF assms(1)] assms(2) obtain k where df: "date_field s = Inl (KeyError k)"
    by (cases "is_digit (hd (month_of (group0 m)))") auto
  from doc_name_field_total [of s] obtain n where "doc_name_field s = Inr n" ..
  with df have er: "extract_rows s = Inl (KeyError k)" by (simp add: extract_rows_def)
  from assms(1) date_pat_empty have ne: "s \<noteq> []" by auto
  have pp: "process_pdf fs (path_join d f) = Inl (KeyError k)"
    if "extract_text_from_pdf fs (path_join d f) = s" for fs d f
    using that er ne by (simp add: process_pdf_def)
  have pd: "\<exists>e. process_directory fs d = Inl e"
    if "extract_text_from_pdf fs (path_join d f) = s" "endswith (lower f) ''.pdf''"
      "f \<in> set (fs_listdir fs d)" for fs d f
    unfolding process_directory_def
    by (rule process_files_abort [OF that(3) that(2) pp [OF that(1)]])
  have rm: "\<exists>e. run_module env fs = Inl e"
    if "extract_text_from_pdf fs (path_join d f) = s" "endswith (lower f) ''.pdf''"
      "f \<in> set (fs_listdir fs d)" "env ''SERVER_ROUTE'' = Some d" for fs d f env
    using pd [OF that(1,2,3)] that(4)
    by (auto simp: run_module_def env_str_def split: option.splits sum.splits)
  from df er pp pd rm show ?thesis by blast
qed

theorem unknown_month_raises_witness:
  "(\<exists>k. date_field ''1 de x de 2021'' = Inl (KeyError k)
        \<and> extract_rows ''1 de x de 2021'' = Inl (KeyError k)
        \<and> process_pdf fs_unknown_month (path_join ''in'' ''b.pdf'') = Inl (KeyError k))
   \<and> (\<exists>e. process_directory fs_unknown_month ''in'' = Inl e)
   \<and> (\<exists>e. run_module [''SERVER_ROUTE'' \<mapsto> ''in'', ''DOWNLOAD_ROUTE'' \<mapsto> ''out'']
          fs_unknown_month = Inl e)"
proof -
  let ?m = "(''1 de x de 2021'',
     \<lparr>m_prev = Some CHR ''1'', m_rest = [], m_grp = Some ''1 de x de 2021''\<rparr>)"
  have m: "re_search date_pat ''1 de x de 2021'' = Some ?m" by code_simp
  have mm: "months (lower (month_of (group0 ?m))) = None" by code_simp
  have t: "extract_text_from_pdf fs_unknown_month (path_join ''in'' ''b.pdf'') = ''1 de x de 2021''"
    by code_simp
  have p: "endswith (lower ''b.pdf'') ''.pdf''" by code_simp
  have l: "''b.pdf'' \<in> set (fs_listdir fs_unknown_month ''in'')"
    by (simp add: fs_unknown_month_def)
  have e: "[''SERVER_ROUTE'' \<mapsto> ''in'', ''DOWNLOAD_ROUTE'' \<mapsto> ''out''] ''SERVER_ROUTE'' = Some ''in''"
    by simp
  from unknown_month_raises [OF m mm] obtain k where
    1: "date_field ''1 de x de 2021'' = Inl (KeyError k)"
    and 2: "extract_rows ''1 de x de 2021'' = Inl (KeyError k)"
    and 3: "\<forall>fs d f. extract_text_from_pdf fs (path_join d f) = ''1 de x de 2021''
          \<longrightarrow> process_pdf fs (path_join d f) = Inl (KeyError k)
            \<and> (endswith (lower f) ''.pdf'' \<and> f \<in> set (fs_listdir fs d)
                \<longrightarrow> (\<exists>e. process_directory fs d = Inl e)
                  \<and> (\<forall>env. env ''SERVER_ROUTE'' = Some d \<longrightarrow> (\<exists>e. run_module env fs = Inl e)))"
    by blast
  from 3 [rule_format, OF t] p l
  have 4: "process_pdf fs_unknown_month (path_join ''in'' ''b.pdf'') = Inl (KeyError k)"
    and 5: "\<exists>e. process_directory fs_unknown_month ''in'' = Inl e"
    and 6: "\<forall>env. env ''SERVER_ROUTE'' = Some ''in''
        \<longrightarrow> (\<exists>e. run_module env fs_unknown_month = Inl e)"
    by blast+
  from 6 e have 7: "\<exists>e. run_module [''SERVER_ROUTE'' \<mapsto> ''in'', ''DOWNLOAD_ROUTE'' \<mapsto> ''out'']
          fs_unknown_month = Inl e" by blast
  from 1 2 4 5 7 show ?thesis by blast
qed

section \<open>Row expansion\<close>

text \<open>
  Claim C1, amended. For every text whose date match, if there is one, names a month
  of the table (so that the lookup does not raise), \<open>extract_rows\<close> returns rows, and
  at least one: with annexes \<open>an\<close> it returns one row for each, in their order, and
  without annexes one row whose annex is the sentinel; name, date, subject and
  references are the same in all the rows.
\<close>

theorem extract_rows_one_per_annex:
  assumes "\<forall>m. re_search date_pat s = Some m \<longrightarrow> months (lower (month_of (group0 m))) \<noteq> None"
  shows "\<exists>n d sj rf an rows.
     doc_name_field s = Inr n \<and> date_field s = Inr d \<and> subject_field s = Inr sj
     \<and> references_field s = Inr rf \<and> annexes_field s = Inr an
     \<and> extract_rows s = Inr rows \<and> rows \<noteq> []
     \<and> (an \<noteq> [] \<longrightarrow> rows = map (\<lambda>a. \<lparr>Nombre = n, Fecha = d, Asunto = sj, Anexo = a,
                                       Referencias = rf\<rparr>) an)
     \<and> (an = [] \<longrightarrow> rows = [\<lparr>Nombre = n, Fecha = d, Asunto = sj, Anexo = ''No encontrado'',
                               Referencias = rf\<rparr>])
     \<and> (\<forall>r \<in> set rows. Nombre r = n \<and> Fecha r = d \<and> Asunto r = sj \<and> Referencias r = rf)"
proof -
  from doc_name_field_total [of s] obtain n where n: "doc_name_field s = Inr n" ..
  from subject_field_total [of s] obtain sj where sj: "subject_field s = Inr sj" ..
  from references_field_total [of s] obtain rf where rf: "references_field s = Inr rf" ..
  from annexes_field_total [of s] obtain an where an: "annexes_field s = Inr an" ..
  have "\<exists>d. date_field s = Inr d"
  proof (cases "re_search date_pat s")
    case None
    then show ?thesis by (simp add: date_field_def extract_field_with_regex_def)
  next
    case (Some m)
    with assms obtain mm where mm: "months (lower (month_of (group0 m))) = Some mm" by auto
    from known_month_letters [OF mm] date_field_eq [OF Some] mm show ?thesis by simp
  qed
  then obtain d where d: "date_field s = Inr d" ..
  let ?rows = "make_rows n d sj rf an"
  have er: "extract_rows s = Inr ?rows"
    using n d sj rf an by (simp add: extract_rows_def)
  have "?rows \<noteq> []"
    and "an \<noteq> [] \<longrightarrow> ?rows = map (\<lambda>a. \<lparr>Nombre = n, Fecha = d, Asunto = sj, Anexo = a,
                                       Referencias = rf\<rparr>) an"
    and "an = [] \<longrightarrow> ?rows = [\<lparr>Nombre = n, Fecha = d, Asunto = sj, Anexo = ''No encontrado'',
                               Referencias = rf\<rparr>]"
    and "\<forall>r \<in> set ?rows. Nombre r = n \<and> Fecha r = d \<and> Asunto r = sj \<and> Referencias r = rf"
    by (auto simp: make_rows_eq)
  with n d sj rf an er show ?thesis by blast
qed

theorem extract_rows_one_per_annex_witness:
  "\<exists>rows. extract_rows doc_example = Inr rows \<and> length rows = 2
      \<and> map Anexo rows = [''uno'', ''dos'']
      \<and> map Nombre rows = [''M-7'', ''M-7'']
      \<and> map Fecha rows = [''15-03-2021'', ''15-03-2021'']"
proof -
  let ?m = "(''15 de marzo de 2021'' @ [NL] @ ''Asunto: Entrega'' @ [NL] @ ''Referencias:''
     @ [NL] @ ''A - B - C'' @ [NL] @ ''Anexos:'' @ [NL] @ ''- uno'' @ [NL] @ ''- dos'' @ [NL],
     \<lparr>m_prev = Some CHR ''1'', m_rest = [NL] @ ''Asunto: Entrega'' @ [NL] @ ''Referencias:''
     @ [NL] @ ''A - B - C'' @ [NL] @ ''Anexos:'' @ [NL] @ ''- uno'' @ [NL] @ ''- dos'' @ [NL],
     m_grp = Some ''15 de marzo de 2021''\<rparr>)"
  have m: "re_search date_pat doc_example = Some ?m" by code_simp
  have mm: "months (lower (month_of (group0 ?m))) = Some ''03''" by code_simp
  have h: "\<forall>m. re_search date_pat doc_example = Some m
      \<longrightarrow> months (lower (month_of (group0 m))) \<noteq> None"
    using m mm by auto
  have n: "doc_name_field doc_example = Inr ''M-7''" by code_simp
  have d: "date_field doc_example = Inr ''15-03-2021''" by code_simp
  have a: "annexes_field doc_example = Inr [''uno'', ''dos'']" by code_simp
  from extract_rows_one_per_annex [OF h] n d a show ?thesis by auto
qed

text \<open>
  The claim as stated, for every text, fails on \<open>1 de x de 2021\<close>: the lookup of the
  month raises \<open>KeyError\<close> and no row is returned.
\<close>

theorem unknown_month_no_record_counterexample:
  "\<not> (\<exists>rows. extract_rows ''1 de x de 2021'' = Inr rows \<and> rows \<noteq> [])"
proof -
  have "extract_rows ''1 de x de 2021'' = Inl (KeyError ''x'')" by code_simp
  then show ?thesis by simp
qed

section \<open>The annexes\<close>

declare re_findall_from.simps [simp del]

lemma cmatch_Dot: "cmatch Dot = (\<lambda>c. c \<noteq> NL)"
  by (rule ext) simp

lemma item_here:
  assumes "c \<noteq> NL"
  shows "rmatch (Group (Rep True Dot 1 None)) \<lparr>m_prev = p, m_rest = c # t, m_grp = None\<rparr>
           (\<lambda>st. rmatch Eol_multiline st Some)
         = Some \<lparr>m_prev = Some (last (takeWhile (\<lambda>c. c \<noteq> NL) (c # t))),
                 m_rest = dropWhile (\<lambda>c. c \<noteq> NL) (c # t),
                 m_grp = Some (takeWhile (\<lambda>c. c \<noteq> NL) (c # t))\<rparr>"
proof -
  let ?R = "takeWhile (\<lambda>c. c \<noteq> NL) (c # t)" and ?v = "dropWhile (\<lambda>c. c \<noteq> NL) (c # t)"
  define k where "k = (\<lambda>p' s'. rmatch Eol_multiline
      \<lparr>m_prev = p', m_rest = s', m_grp = Some (take (length (c # t) - length s') (c # t))\<rparr> Some)"
  have R: "?R \<noteq> []" "list_all (cmatch Dot) ?R" using assms
    by (auto simp: list_all_iff cmatch_Dot dest: set_takeWhileD)
  have v: "?v = [] \<or> \<not> cmatch Dot (hd ?v)"
    using hd_dropWhile [of "\<lambda>c. c \<noteq> NL" "c # t"] by (auto simp: cmatch_Dot)
  have len: "length (c # t) - length ?v = length ?R"
    by (metis add_diff_cancel_right' length_append takeWhile_dropWhile_id)
  have tk: "take (length ?R) (c # t) = ?R"
    by (metis append_eq_conv_conj takeWhile_dropWhile_id)
  have kv: "k (Some (last ?R)) ?v
      = Some \<lparr>m_prev = Some (last ?R), m_rest = ?v, m_grp = Some ?R\<rparr>"
  proof (cases ?v)
    case Nil
    then show ?thesis unfolding k_def len tk by simp
  next
    case (Cons a w)
    with v have "a = NL" by (simp add: cmatch_Dot)
    with Cons show ?thesis unfolding k_def len tk by simp
  qed
  have "rep_greedy Dot (Suc 0) None p (?R @ ?v) k
      = Some \<lparr>m_prev = Some (last ?R), m_rest = ?v, m_grp = Some ?R\<rparr>"
    by (rule rep_greedy_plus_max [where k = k, OF R v kv])
  then have "rep_greedy Dot (Suc 0) None p (c # t) k
      = Some \<lparr>m_prev = Some (last ?R), m_rest = ?v, m_grp = Some ?R\<rparr>"
    by (simp only: takeWhile_dropWhile_id)
  moreover have "rmatch (Group (Rep True Dot 1 None)) \<lparr>m_prev = p, m_rest = c # t, m_grp = None\<rparr>
           (\<lambda>st. rmatch Eol_multiline st Some) = rep_greedy Dot (Suc 0) None p (c # t) k"
    unfolding k_def by (simp del: rep_greedy.simps rmatch.simps(8))
  ultimately show ?thesis by (simp only:)
qed

lemma item_here_none:
  assumes "s = [] \<or> hd s = NL"
  shows "rmatch (Group (Rep True Dot 1 None)) \<lparr>m_prev = p, m_rest = s, m_grp = None\<rparr>
           (\<lambda>st. rmatch Eol_multiline st Some) = None"
  using assms by (cases s) auto

lemma item_cont_some:
  "c \<noteq> NL \<Longrightarrow> item_cont p (c # t)
         = Some \<lparr>m_prev = Some (last (takeWhile (\<lambda>c. c \<noteq> NL) (c # t))),
                 m_rest = dropWhile (\<lambda>c. c \<noteq> NL) (c # t),
                 m_grp = Some (takeWhile (\<lambda>c. c \<noteq> NL) (c # t))\<rparr>"
  unfolding item_cont_def by (rule item_here)

lemma item_cont_none: "s = [] \<or> hd s = NL \<Longrightarrow> item_cont p s = None"
  unfolding item_cont_def by (rule item_here_none)

lemma annex_match_here:
  "match_here annex_pat p s =
     (if (p = None \<or> p = Some NL) \<and> s \<noteq> [] \<and> hd s = CHR ''-''
      then rep_greedy Space 0 None (Some CHR ''-'') (tl s) item_cont else None)"
proof (cases s)
  case Nil
  then show ?thesis by (simp add: match_here_def annex_pat_def)
next
  case (Cons x xs)
  show ?thesis
    unfolding Cons match_here_def annex_pat_def item_cont_def seqs.simps
      rmatch.simps(3) rmatch.simps(6) rmatch.simps(1) rmatch.simps(2)
    by (simp del: rmatch.simps rep_greedy.simps)
qed

lemma is_space_NL: "is_space NL"
  by (simp add: is_space_def)

lemma dash_not_space: "\<not> is_space CHR ''-''"
  by (simp add: is_space_def)

lemma annex_hit:
  assumes "p = None \<or> p = Some NL" and "dropWhile is_space xs \<noteq> []"
  shows "match_here annex_pat p (CHR ''-'' # xs)
     = Some \<lparr>m_prev = Some (last (takeWhile (\<lambda>c. c \<noteq> NL) (dropWhile is_space xs))),
             m_rest = dropWhile (\<lambda>c. c \<noteq> NL) (dropWhile is_space xs),
             m_grp = Some (takeWhile (\<lambda>c. c \<noteq> NL) (dropWhile is_space xs))\<rparr>"
proof -
  from assms(2) obtain c t where u: "dropWhile is_space xs = c # t" by (cases "dropWhile is_space xs") auto
  with hd_dropWhile [of is_space xs] have "\<not> is_space c" by simp
  with is_space_NL have c: "c \<noteq> NL" by auto
  have "item_cont (lastp (Some CHR ''-'') (takeWhile (cmatch Space) xs)) (dropWhile (cmatch Space) xs)
      = Some \<lparr>m_prev = Some (last (takeWhile (\<lambda>c. c \<noteq> NL) (c # t))),
                 m_rest = dropWhile (\<lambda>c. c \<noteq> NL) (c # t),
                 m_grp = Some (takeWhile (\<lambda>c. c \<noteq> NL) (c # t))\<rparr>"
    unfolding cmatch_Space u by (rule item_cont_some [OF c])
  from rep_greedy_max [where k = item_cont, OF this] assms(1) show ?thesis
    by (simp add: annex_match_here u)
qed

lemma annex_backtrack:
  "list_all is_space xs \<Longrightarrow>
     map_option m_grp (rep_greedy Space 0 None p xs item_cont)
       = (case filter (\<lambda>c. c \<noteq> NL) xs of [] \<Rightarrow> None | c # cs \<Rightarrow> Some (Some [last (c # cs)]))"
proof (induction xs arbitrary: p)
  case Nil
  show ?case by (simp add: item_cont_none)
next
  case (Cons x xs)
  then have x: "is_space x" and xs: "list_all is_space xs" by simp_all
  note IH = Cons.IH [OF xs, of "Some x"]
  show ?case
  proof (cases "filter (\<lambda>c. c \<noteq> NL) xs")
    case (Cons c cs)
    with IH obtain r where "rep_greedy Space 0 None (Some x) xs item_cont = Some r"
      "m_grp r = Some [last (c # cs)]" by auto
    with x Cons show ?thesis by simp
  next
    case Nil
    with IH have inner: "rep_greedy Space 0 None (Some x) xs item_cont = None" by simp
    show ?thesis
    proof (cases "x = NL")
      case True
      with x inner Nil show ?thesis by (simp add: item_cont_none)
    next
      case False
      from Nil have "takeWhile (\<lambda>c. c \<noteq> NL) xs = []"
        by (cases xs) (auto simp: filter_empty_conv split: if_splits)
      with False x inner Nil show ?thesis by (simp add: item_cont_some)
    qed
  qed
qed

lemma annex_no_match:
  "\<not> ((p = None \<or> p = Some NL) \<and> x = CHR ''-'') \<Longrightarrow> match_here annex_pat p (x # xs) = None"
  "match_here annex_pat p [] = None"
  by (auto simp: annex_match_here)

lemma annex_no_dash:
  "CHR ''-'' \<notin> set s \<Longrightarrow> re_findall_from annex_pat p s = []"
proof (induction s arbitrary: p)
  case Nil
  show ?case by (rule re_findall_from_end) (rule annex_no_match)
next
  case (Cons x xs)
  then have "match_here annex_pat p (x # xs) = None" by (intro annex_no_match) auto
  from re_findall_from_skip [OF this] Cons show ?case by simp
qed

lemma annex_findall:
  "map item_of (re_findall_from annex_pat p s) = annex_items (p = None \<or> p = Some NL) s"
proof (induction s arbitrary: p rule: length_induct)
  case (1 s)
  note IH = 1 [rule_format]
  show ?case
  proof (cases s)
    case Nil
    then show ?thesis by (simp add: re_findall_from_end annex_no_match)
  next
    case (Cons x xs)
    let ?bol = "p = None \<or> p = Some NL"
    show ?thesis
    proof (cases "?bol \<and> x = CHR ''-''")
      case False
      then have "match_here annex_pat p (x # xs) = None" by (rule annex_no_match)
      from re_findall_from_skip [OF this]
      have "re_findall_from annex_pat p s = re_findall_from annex_pat (Some x) xs"
        by (simp add: Cons)
      moreover have "map item_of (re_findall_from annex_pat (Some x) xs)
          = annex_items (Some x = None \<or> Some x = Some NL) xs"
        by (rule IH) (simp add: Cons)
      ultimately show ?thesis using False by (auto simp: Cons)
    next
      case True
      then have bol: ?bol and x: "x = CHR ''-''" by simp_all
      let ?u = "dropWhile is_space xs"
      show ?thesis
      proof (cases "?u = []")
        case False
        let ?R = "takeWhile (\<lambda>c. c \<noteq> NL) ?u" and ?v = "dropWhile (\<lambda>c. c \<noteq> NL) ?u"
        let ?st = "\<lparr>m_prev = Some (last ?R), m_rest = ?v, m_grp = Some ?R\<rparr>"
        have mh: "match_here annex_pat p s = Some ?st"
          unfolding Cons x by (rule annex_hit [OF bol False])
        have len: "length ?v < length s"
          unfolding Cons
          by (simp add: less_Suc_eq_le order_trans [OF length_dropWhile_le length_dropWhile_le])
        then have "m_rest ?st \<noteq> s" by auto
        from re_findall_from_hit [OF mh this]
        have f: "re_findall_from annex_pat p s = (s, ?st) # re_findall_from annex_pat (Some (last ?R)) ?v"
          by simp
        from False obtain c t where u: "?u = c # t" by (cases ?u) auto
        with hd_dropWhile [of is_space xs] is_space_NL have "c \<noteq> NL" by auto
        with u have "?R \<noteq> []" by simp
        then have "last ?R \<in> set ?R" by (rule last_in_set)
        then have "last ?R \<noteq> NL" by (auto dest: set_takeWhileD)
        then have b: "(Some (last ?R) = None \<or> Some (last ?R) = Some NL) = False" by simp
        have "map item_of (re_findall_from annex_pat (Some (last ?R)) ?v) = annex_items False ?v"
          using IH [OF len, of "Some (last ?R)"] unfolding b .
        moreover have "item_of (s, ?st) = ?R" by (simp add: item_of_def group1_def)
        ultimately show ?thesis using f False bol x
          by (simp add: Cons Let_def)
      next
        case True
        then have sp: "list_all is_space xs"
          by (simp add: list_all_iff dropWhile_eq_Nil_conv)
        with dash_not_space have nd: "CHR ''-'' \<notin> set xs" by (auto simp: list_all_iff)
        have mh: "match_here annex_pat p s = rep_greedy Space 0 None (Some CHR ''-'') xs item_cont"
          using bol x by (simp add: annex_match_here Cons)
        show ?thesis
        proof (cases "filter (\<lambda>c. c \<noteq> NL) xs")
          case Nil
          with annex_backtrack [OF sp, of "Some CHR ''-''"] mh
          have "match_here annex_pat p (x # xs) = None" by (simp add: Cons)
          from re_findall_from_skip [OF this] annex_no_dash [OF nd]
          have "re_findall_from annex_pat p s = []" by (simp add: Cons)
          with True Nil bol x show ?thesis by (simp add: Cons)
        next
          case (Cons c cs)
          with annex_backtrack [OF sp, of "Some CHR ''-''"] mh obtain st where
            st: "match_here annex_pat p s = Some st" "m_grp st = Some [last (c # cs)]"
            by auto
          from match_here_suffix [OF st(1)] have suf: "suffix (m_rest st) s" .
          have "m_rest st \<noteq> s"
          proof
            assume e: "m_rest st = s"
            from match_here_sound [OF st(1)] obtain cc where
              "s = cc @ m_rest st" "accepts annex_pat p cc (m_rest st)" by blast
            with e show False by (auto simp: annex_pat_def)
          qed
          with suf have "suffix (m_rest st) xs"
            unfolding \<open>s = x # xs\<close> by (auto simp: suffix_Cons)
          with nd have "CHR ''-'' \<notin> set (m_rest st)"
            using set_mono_suffix by blast
          from annex_no_dash [OF this] re_findall_from_hit [OF st(1) \<open>m_rest st \<noteq> s\<close>]
          have "re_findall_from annex_pat p s = [(s, st)]" by simp
          moreover have "item_of (s, st) = [last (c # cs)]"
            using st(2) by (simp add: item_of_def group1_def)
          ultimately show ?thesis using True Cons bol x
            by (simp add: \<open>s = x # xs\<close>)
        qed
      qed
    qed
  qed
qed

lemma re_findall_groups_annex: "re_findall_groups annex_pat s = annex_items True s"
  using annex_findall [of None s] by (simp add: re_findall_groups_def item_of_def [abs_def])

lemma annexes_search:
  "map_option group1 (re_search annexes_section_pat s)
     = map_option (\<lambda>post. Some (until_stop [NL, NL] (dropWhile is_space post)))
         (after_label ''Anexos:'' s)"
  unfolding re_search_def annexes_section_pat_def section_pat_search ..

lemma annexes_field_eq:
  "annexes_field s = Inr (case after_label ''Anexos:'' s of
       None \<Rightarrow> []
     | Some post \<Rightarrow> annex_items True (until_stop [NL, NL] (dropWhile is_space post)))"
proof (cases "after_label ''Anexos:'' s")
  case None
  with annexes_search [of s] have "re_search annexes_section_pat s = None" by simp
  with None show ?thesis by (simp add: annexes_field_def)
next
  case (Some post)
  with annexes_search [of s] obtain m where "re_search annexes_section_pat s = Some m"
    "group1 m = Some (until_stop [NL, NL] (dropWhile is_space post))" by auto
  with Some show ?thesis by (simp add: annexes_field_def re_findall_groups_annex)
qed

lemma until_stop_blank:
  "until_stop [NL, NL] (body @ [NL, NL] @ tail) = until_stop [NL, NL] (body @ [NL, NL])"
proof (induction body)
  case Nil
  show ?case by simp
next
  case (Cons x body)
  have p2: "prefix [a, b] (y # r) \<longleftrightarrow> y = a \<and> r \<noteq> [] \<and> hd r = b" for a b y :: char and r
    by (cases r) auto
  have hd: "hd (body @ NL # NL # tail) = hd (body @ [NL, NL])" by (cases body) simp_all
  have "prefix [NL, NL] (x # body @ NL # NL # tail)
      = prefix [NL, NL] (x # body @ [NL, NL])"
    unfolding p2 hd by simp
  then have "until_stop [NL, NL] (x # body @ NL # NL # tail)
      = (if prefix [NL, NL] (x # body @ [NL, NL]) then [] else x # until_stop [NL, NL] (body @ NL # NL # tail))"
    by (simp del: prefix_code)
  also have "\<dots> = until_stop [NL, NL] (x # body @ [NL, NL])"
    using Cons by (simp del: prefix_code)
  finally show ?case by simp
qed

lemma lines_of_ne: "lines_of s \<noteq> []"
  by (induction s) (auto split: list.splits)

lemma lines_of_Cons:
  "lines_of (x # xs) =
     (if x = NL then [] # lines_of xs else (x # hd (lines_of xs)) # tl (lines_of xs))"
  using lines_of_ne [of xs] by (cases "lines_of xs") auto

lemma hd_lines_of: "hd (lines_of s) = takeWhile (\<lambda>c. c \<noteq> NL) s"
  by (induction s) (simp_all add: lines_of_Cons del: lines_of.simps(2))

lemma tl_lines_of_dropWhile:
  "tl (lines_of (dropWhile (\<lambda>c. c \<noteq> NL) s)) = tl (lines_of s)"
  by (induction s) (simp_all add: lines_of_Cons del: lines_of.simps(2))

lemma dash_lines_step:
  "\<not> (bol \<and> x = CHR ''-'') \<Longrightarrow>
     filter dash_line (if bol then lines_of (x # xs) else tl (lines_of (x # xs)))
       = filter dash_line (if x = NL then lines_of xs else tl (lines_of xs))"
  by (auto simp: lines_of_Cons dash_line_def simp del: lines_of.simps(2))

lemma space_run_in_line:
  assumes "dropWhile is_space (takeWhile (\<lambda>c. c \<noteq> NL) xs) \<noteq> []"
  shows "dropWhile is_space xs
           = dropWhile is_space (takeWhile (\<lambda>c. c \<noteq> NL) xs) @ dropWhile (\<lambda>c. c \<noteq> NL) xs"
proof -
  from assms obtain y where y: "y \<in> set (takeWhile (\<lambda>c. c \<noteq> NL) xs)" "\<not> is_space y"
    by (auto simp: dropWhile_eq_Nil_conv)
  have "dropWhile is_space (takeWhile (\<lambda>c. c \<noteq> NL) xs @ dropWhile (\<lambda>c. c \<noteq> NL) xs)
      = dropWhile is_space (takeWhile (\<lambda>c. c \<noteq> NL) xs) @ dropWhile (\<lambda>c. c \<noteq> NL) xs"
    by (rule dropWhile_append1 [where P = is_space, OF y])
  then show ?thesis by simp
qed

lemma annex_items_lines:
  "list_all (\<lambda>l. dash_item l \<noteq> [])
       (filter dash_line (if bol then lines_of s else tl (lines_of s)))
     \<Longrightarrow> annex_items bol s
           = map dash_item (filter dash_line (if bol then lines_of s else tl (lines_of s)))"
proof (induction s arbitrary: bol rule: length_induct)
  case (1 s)
  note IH = 1(1) [rule_format]
  note prem = 1(2)
  show ?case
  proof (cases s)
    case Nil
    then show ?thesis by (simp add: dash_line_def)
  next
    case (Cons x xs)
    show ?thesis
    proof (cases "bol \<and> x = CHR ''-''")
      case False
      note step = dash_lines_step [OF False, of xs]
      from prem have "list_all (\<lambda>l. dash_item l \<noteq> [])
          (filter dash_line (if x = NL then lines_of xs else tl (lines_of xs)))"
        unfolding Cons step .
      then have "annex_items (x = NL) xs
          = map dash_item (filter dash_line (if x = NL then lines_of xs else tl (lines_of xs)))"
        by (rule IH [rotated]) (simp add: Cons)
      moreover have "annex_items bol s = annex_items (x = NL) xs"
        using False by (auto simp: Cons)
      ultimately show ?thesis unfolding Cons step by simp
    next
      case True
      then have bol: bol and x: "x = CHR ''-''" by simp_all
      let ?l = "takeWhile (\<lambda>c. c \<noteq> NL) xs" and ?B = "dropWhile (\<lambda>c. c \<noteq> NL) xs"
      let ?A = "dropWhile is_space ?l"
      have ls: "lines_of s = (CHR ''-'' # ?l) # tl (lines_of xs)"
        by (simp add: Cons x lines_of_Cons hd_lines_of del: lines_of.simps(2))
      have dl: "dash_line (CHR ''-'' # ?l)" by (simp add: dash_line_def)
      from prem bol have "dash_item (CHR ''-'' # ?l) \<noteq> []"
        and rest: "list_all (\<lambda>l. dash_item l \<noteq> []) (filter dash_line (tl (lines_of xs)))"
        by (simp_all add: ls dl)
      then have A: "?A \<noteq> []" by (simp add: dash_item_def)
      have u: "dropWhile is_space xs = ?A @ ?B"
        by (rule space_run_in_line [OF A])
      have An: "list_all (\<lambda>c. c \<noteq> NL) ?A"
        by (auto simp: list_all_iff dest!: set_dropWhileD set_takeWhileD)
      have Bh: "?B = [] \<or> \<not> (hd ?B \<noteq> NL)"
        using hd_dropWhile [of "\<lambda>c. c \<noteq> NL" xs] by auto
      have tk: "takeWhile (\<lambda>c. c \<noteq> NL) (?A @ ?B) = ?A"
        by (rule takeWhile_run [OF An Bh])
      have dr: "dropWhile (\<lambda>c. c \<noteq> NL) (?A @ ?B) = ?B"
        by (rule dropWhile_run [OF An Bh])
      have len: "length ?B < length s"
        by (simp add: Cons less_Suc_eq_le length_dropWhile_le)
      have "annex_items False ?B
          = map dash_item (filter dash_line (if False then lines_of ?B else tl (lines_of ?B)))"
        by (rule IH [OF len]) (use rest in \<open>simp add: tl_lines_of_dropWhile\<close>)
      then have B: "annex_items False ?B = map dash_item (filter dash_line (tl (lines_of xs)))"
        by (simp add: tl_lines_of_dropWhile)
      have "annex_items bol s = ?A # annex_items False ?B"
        using bol A by (simp add: Cons x u tk dr Let_def)
      moreover have "dash_item (CHR ''-'' # ?l) = ?A" by (simp add: dash_item_def)
      ultimately show ?thesis using B bol
        by (simp add: ls dl)
    qed
  qed
qed

lemma annex_section_items:
  assumes "annex_section s = Some sec"
    and "list_all (\<lambda>l. dash_item l \<noteq> []) (filter dash_line (lines_of sec))"
  shows "annexes_field s = Inr (map dash_item (filter dash_line (lines_of sec)))"
proof -
  from assms(1) obtain post where p: "after_label ''Anexos:'' s = Some post"
    and sec: "sec = until_stop [NL, NL] (dropWhile is_space post)"
    by (auto simp: annex_section_def)
  from annex_items_lines [of True sec] assms(2)
  have "annex_items True sec = map dash_item (filter dash_line (lines_of sec))" by simp
  with p sec show ?thesis by (simp add: annexes_field_eq)
qed

lemma after_label_front: "after_label lbl (lbl @ t) = Some t"
proof (cases "lbl @ t")
  case Nil
  then show ?thesis by simp
next
  case (Cons a l)
  have p: "prefix lbl (a # l)" unfolding Cons [symmetric] by simp
  have d: "drop (length lbl) (a # l) = t" unfolding Cons [symmetric] by simp
  show ?thesis unfolding Cons after_label.simps using p d by (simp only: if_True)
qed

lemma annexes_after_blank:
  assumes "after_label ''Anexos:'' s = Some post"
    and "dropWhile is_space post = body @ [NL, NL] @ tail"
  shows "annexes_field s = annexes_field (''Anexos:'' @ body @ [NL, NL] @ tail')"
proof -
  have b: "body \<noteq> [] \<and> \<not> is_space (hd body)"
  proof (cases body)
    case Nil
    with assms(2) hd_dropWhile [of is_space post] is_space_NL show ?thesis by auto
  next
    case (Cons c cs)
    with assms(2) hd_dropWhile [of is_space post] show ?thesis by auto
  qed
  then have d: "dropWhile is_space (body @ [NL, NL] @ tail') = body @ [NL, NL] @ tail'"
    by (cases body) auto
  have a: "after_label ''Anexos:'' (''Anexos:'' @ body @ [NL, NL] @ tail')
      = Some (body @ [NL, NL] @ tail')"
    by (rule after_label_front)
  have "annexes_field (''Anexos:'' @ body @ [NL, NL] @ tail')
      = Inr (annex_items True (until_stop [NL, NL] (body @ [NL, NL] @ tail')))"
    by (simp only: annexes_field_eq a option.case d)
  also have "\<dots> = Inr (annex_items True (until_stop [NL, NL] (body @ [NL, NL] @ tail)))"
    by (simp only: until_stop_blank)
  also have "\<dots> = annexes_field s"
    by (simp only: annexes_field_eq assms option.case)
  finally show ?thesis by simp
qed

text \<open>
  Claim C6, amended. The annex section is the text after the first \<open>Anexos:\<close> and the
  white space that follows it, up to the first blank line or the end of the text; it
  may be several lines. When every line of the section that begins with a dash has a
  character that is not white space after the dash, the annexes are those lines in
  their order, each one the rest of the line after the dash and the white space that
  follows it, whether a space follows the dash or not. What comes after the first blank
  line changes nothing: any other text \<open>tail'\<close> there gives the same annexes. The
  label alone gives no item.
\<close>

theorem annexes_field_dash_lines:
  "(annex_section s = Some sec
      \<and> list_all (\<lambda>l. dash_item l \<noteq> []) (filter dash_line (lines_of sec))
      \<longrightarrow> annexes_field s = Inr (map dash_item (filter dash_line (lines_of sec))))
   \<and> (after_label ''Anexos:'' s = Some post \<and> dropWhile is_space post = body @ [NL, NL] @ tail
      \<longrightarrow> annexes_field s = annexes_field (''Anexos:'' @ body @ [NL, NL] @ tail'))
   \<and> annexes_field ''Anexos:'' = Inr []"
proof (intro conjI impI)
  assume "annex_section s = Some sec
      \<and> list_all (\<lambda>l. dash_item l \<noteq> []) (filter dash_line (lines_of sec))"
  then show "annexes_field s = Inr (map dash_item (filter dash_line (lines_of sec)))"
    by (intro annex_section_items) simp_all
next
  assume "after_label ''Anexos:'' s = Some post \<and> dropWhile is_space post = body @ [NL, NL] @ tail"
  then show "annexes_field s = annexes_field (''Anexos:'' @ body @ [NL, NL] @ tail')"
    by (intro annexes_after_blank [where post = post and tail = tail]) simp_all
next
  have "after_label ''Anexos:'' ''Anexos:'' = Some []" by code_simp
  then show "annexes_field ''Anexos:'' = Inr []"
    by (simp add: annexes_field_eq)
qed

theorem annexes_field_dash_lines_witness:
  "annexes_field (''Anexos:'' @ [NL] @ ''- uno'' @ [NL] @ ''-dos'' @ [NL] @ ''fin'' @ [NL, NL]
       @ ''- tres'' @ [NL]) = Inr [''uno'', ''dos'']
   \<and> annexes_field (''Anexos:'' @ (''- uno'' @ [NL] @ ''-dos'' @ [NL] @ ''fin'') @ [NL, NL]
       @ ''- cuatro'') = Inr [''uno'', ''dos'']"
proof -
  let ?body = "''- uno'' @ [NL] @ ''-dos'' @ [NL] @ ''fin''"
  let ?s = "''Anexos:'' @ [NL] @ ''- uno'' @ [NL] @ ''-dos'' @ [NL] @ ''fin'' @ [NL, NL]
       @ ''- tres'' @ [NL]"
  let ?post = "[NL] @ ''- uno'' @ [NL] @ ''-dos'' @ [NL] @ ''fin'' @ [NL, NL] @ ''- tres'' @ [NL]"
  note t = annexes_field_dash_lines [of ?s ?body ?post ?body "''- tres'' @ [NL]" "''- cuatro''"]
  have sec: "annex_section ?s = Some ?body" by code_simp
  have ok: "list_all (\<lambda>l. dash_item l \<noteq> []) (filter dash_line (lines_of ?body))" by code_simp
  have items: "map dash_item (filter dash_line (lines_of ?body)) = [''uno'', ''dos'']" by code_simp
  have a: "after_label ''Anexos:'' ?s = Some ?post" by code_simp
  have d: "dropWhile is_space ?post = ?body @ [NL, NL] @ (''- tres'' @ [NL])" by code_simp
  have 1: "annexes_field ?s = Inr [''uno'', ''dos'']"
    using t [THEN conjunct1, THEN mp, OF conjI [OF sec ok]] by (simp only: items)
  have 2: "annexes_field ?s = annexes_field (''Anexos:'' @ ?body @ [NL, NL] @ ''- cuatro'')"
    using t [THEN conjunct2, THEN conjunct1, THEN mp, OF conjI [OF a d]] .
  from 1 2 show ?thesis by (simp only:)
qed

text \<open>
  The claim as stated fails on the section \<open>-x\<close>: no line begins with a dash and a
  space, and the annexes are the one item \<open>x\<close>.
\<close>

theorem dash_without_space_counterexample:
  "annexes_field (''Anexos:'' @ [NL] @ ''-x'') = Inr [''x'']
   \<and> annex_lines_as_claimed (''Anexos:'' @ [NL] @ ''-x'') = []"
  by code_simp

section \<open>A text without its subject\<close>





































end
